theory Spec2Isabelle
  imports Complex_Main "HOL-Library.AList"
begin

section \<open>GL(2,R)-orbit closures of translation surfaces: the model\<close>

text \<open>
  A shallow embedding of \<^verbatim>\<open>flatsurf/geometry/gl2r_orbit_closure.py\<close>. Exceptions are
  values of \<open>error\<close>; a function that can raise returns \<open>error + 'a\<close> with \<open>Inl\<close> the
  exception. The C++ library behind \<^verbatim>\<open>pyflatsurf\<close> and the Sage matrices are external
  to the file; what the code reads from them is a field of a record below.
\<close>

subsection \<open>Exceptions and the module's global names\<close>

datatype error =
    NameError string
  | AssertionError
  | ValueError
  | KeyError
  | IndexError
  | TypeError
  | ZeroDivisionError
  | DimensionError
  | StopIteration

text \<open>
  \<^verbatim>\<open>DimensionError\<close> stands for the exception Sage raises when a value of the wrong
  dimensions is assigned to a row of a matrix.
\<close>

text \<open>
  The names bound at module level, in the order the module binds them: the two
  \<^verbatim>\<open>import\<close> statements (\<^verbatim>\<open>import pyflatsurf.vector\<close> binds \<^verbatim>\<open>pyflatsurf\<close> again),
  \<^verbatim>\<open>Vertex\<close>, the names of \<^verbatim>\<open>from sage.all import ...\<close>, the four relative imports,
  and the two classes. A global name that is not bound (and is no builtin) raises
  \<^verbatim>\<open>NameError\<close> when the expression that reads it is evaluated.
\<close>

definition module_globals :: "string list" where
  "module_globals =
     [''cppyy'', ''RealEmbeddedNumberField'', ''pyflatsurf'', ''Vertex'',
      ''VectorSpace'', ''FreeModule'', ''matrix'', ''identity_matrix'', ''ZZ'', ''QQ'',
      ''Unknown'', ''vector'', ''subfield_from_elements'', ''is_between'',
      ''projectivization'', ''TranslationSurface'', ''to_pyflatsurf'',
      ''Decomposition'', ''GL2ROrbitClosure'']"

definition lookup_global :: "string \<Rightarrow> error + unit" where
  "lookup_global name =
     (if name \<in> set module_globals then Inr () else Inl (NameError name))"

subsection \<open>Flow decompositions, as the code reads them\<close>

text \<open>
  \<^verbatim>\<open>comp.cylinder()\<close> and \<^verbatim>\<open>comp.withoutPeriodicTrajectory()\<close> are three-valued.
\<close>

datatype tribool = TTrue | TFalse | TUnknown

text \<open>The coordinate ring of the surface, as far as the code tells the cases apart
  (\<^verbatim>\<open>self.V2.sage_base_ring is ZZ or self.V2.sage_base_ring is QQ\<close>).\<close>

datatype base_ring = Ring_ZZ | Ring_QQ | Ring_NumberField

text \<open>
  An oriented saddle connection is a handle \<open>sc\<close>; \<open>- sc\<close> is the same connection with
  the other orientation. An element of a perimeter gives its saddle connection and
  whether it is vertical.
\<close>

record perimeter_item =
  saddleConnection :: int
  vertical :: bool

record 'k component =
  cylinder :: tribool
  withoutPeriodicTrajectory :: tribool
  perimeter :: "perimeter_item list"
  circumferenceHolonomy :: "'k \<times> 'k"
  area :: 'k
  width :: 'k

text \<open>
  \<open>sc_chain sc\<close> is \<^verbatim>\<open>sc.chain()\<close>, the coefficient of each edge of the surface (by edge
  index); \<open>sc_vector sc\<close> is \<^verbatim>\<open>sc.vector()\<close>.
\<close>

record 'k flow_decomposition =
  components :: "'k component list"
  sc_chain :: "int \<Rightarrow> nat \<Rightarrow> int"
  sc_vector :: "int \<Rightarrow> 'k \<times> 'k"

text \<open>The class \<^verbatim>\<open>Decomposition\<close>: the direction \<^verbatim>\<open>u\<close> and the wrapped flow decomposition.
  (The third attribute, \<^verbatim>\<open>orbit\<close>, is passed to each method explicitly.)\<close>

record 'k Decomposition =
  D_u :: "'k \<times> 'k"
  D_decomposition :: "'k flow_decomposition"

subsection \<open>The calls into the library\<close>

text \<open>
  \<^verbatim>\<open>pyflatsurf.flatsurf.makeFlowDecomposition(surface, v)\<close>,
  \<^verbatim>\<open>pyflatsurf.flatsurf.decomposeFlowDecomposition(decomposition, limit)\<close>, which refines
  its argument in place, and \<^verbatim>\<open>surface.saddle_connections(Bound(b, 0))\<close>, of which the
  code reads each connection's vector. The surface is fixed, so it is left out.
\<close>

record 'k flatsurf_api =
  makeFlowDecomposition :: "'k \<times> 'k \<Rightarrow> 'k flow_decomposition"
  decomposeFlowDecomposition :: "'k flow_decomposition \<Rightarrow> int \<Rightarrow> 'k flow_decomposition"
  saddle_connections :: "int \<Rightarrow> ('k \<times> 'k) list"

datatype 'k api_call =
    Call_makeFlowDecomposition "'k \<times> 'k"
  | Call_decomposeFlowDecomposition int

subsection \<open>\<^verbatim>\<open>GL2ROrbitClosure.decomposition\<close>\<close>

text \<open>
  \<^verbatim>\<open>
  def decomposition(self, v, limit=-1):
      v = self.V2(v)
      decomposition = pyflatsurf.flatsurf.makeFlowDecomposition(self._surface, v.vector)
      u = self.V2sage(v)
      if limit != 0:
          pyflatsurf.flatsurf.decomposeFlowDecomposition(decomposition, int(limit))
      return Decomposition(self, decomposition, u)
  \<close>
  The limit is an integer, on which \<^verbatim>\<open>int(limit)\<close> is the identity. The result comes with
  the list of the library calls made, in order.
\<close>

definition decomposition ::
  "'k flatsurf_api \<Rightarrow> 'k \<times> 'k \<Rightarrow> int \<Rightarrow> 'k Decomposition \<times> 'k api_call list" where
  "decomposition api v limit =
     (let d0 = makeFlowDecomposition api v;
          calls0 = [Call_makeFlowDecomposition v]
      in if limit \<noteq> 0
         then (\<lparr>D_u = v, D_decomposition = decomposeFlowDecomposition api d0 limit\<rparr>,
               calls0 @ [Call_decomposeFlowDecomposition limit])
         else (\<lparr>D_u = v, D_decomposition = d0\<rparr>, calls0))"

subsection \<open>The enumeration of directions\<close>

text \<open>
  \<^verbatim>\<open>
  slope = self.V2sage(self.V2(v))
  if slope[1].is_zero():
      slope = self.V2sage((1, 0))
  else:
      slope = slope / slope[1]
  \<close>
\<close>

definition normalized_slope :: "'k::field \<times> 'k \<Rightarrow> 'k \<times> 'k" where
  "normalized_slope s =
     (if snd s = 0 then (1, 0) else (fst s / snd s, snd s / snd s))"

text \<open>
  The body of the loop over the saddle connections, shared by both enumerations.
  \<^verbatim>\<open>is_between\<close> comes from \<^verbatim>\<open>flatsurf/geometry/polygon.py\<close> and is a parameter. The
  result is the list of decompositions yielded and the set \<^verbatim>\<open>visited\<close> afterwards.
\<close>

fun scan_connections ::
  "'k::field flatsurf_api \<Rightarrow> ('k \<times> 'k \<Rightarrow> 'k \<times> 'k \<Rightarrow> 'k \<times> 'k \<Rightarrow> bool) \<Rightarrow> int \<Rightarrow>
   (('k \<times> 'k) \<times> ('k \<times> 'k)) option \<Rightarrow> ('k \<times> 'k) set \<Rightarrow> ('k \<times> 'k) list \<Rightarrow>
   'k Decomposition list \<times> ('k \<times> 'k) set" where
  "scan_connections api is_between limit sector visited [] = ([], visited)"
| "scan_connections api is_between limit sector visited (v # vs) =
     (let slope = normalized_slope v in
      if (case sector of None \<Rightarrow> False
          | Some (s0, s1) \<Rightarrow> \<not> is_between s0 s1 slope)
      then scan_connections api is_between limit sector visited vs
      else if slope \<in> visited
      then scan_connections api is_between limit sector visited vs
      else (let (ys, visited') =
                  scan_connections api is_between limit sector (insert slope visited) vs
            in (fst (decomposition api v limit) # ys, visited')))"

text \<open>
  A generator run to its end: what it yielded, and the exception that ended it, if one
  did. Pulling the first \<open>k\<close> items sees the first \<open>k\<close> of the list, or the exception
  when the list is shorter.
\<close>

type_synonym 'a generated = "'a list \<times> error option"

text \<open>
  \<^verbatim>\<open>
  def decompositions_depth_first(self, bound, limit=-1, sector=None, visited=None):
      limit = int(limit)
      if visited is None:
          visited = set()
      for connection in self._surface.saddle_connections(pyflatsurf.flatsurf.Bound(int(bound), 0)):
          ...
  \<close>
  The name read is \<^verbatim>\<open>pyflatsurf\<close>.
\<close>

definition decompositions_depth_first ::
  "'k::field flatsurf_api \<Rightarrow> ('k \<times> 'k \<Rightarrow> 'k \<times> 'k \<Rightarrow> 'k \<times> 'k \<Rightarrow> bool) \<Rightarrow> int \<Rightarrow> int \<Rightarrow>
   (('k \<times> 'k) \<times> ('k \<times> 'k)) option \<Rightarrow> ('k \<times> 'k) set option \<Rightarrow> 'k Decomposition generated" where
  "decompositions_depth_first api is_between bound limit sector visited =
     (let visited0 = (case visited of None \<Rightarrow> {} | Some s \<Rightarrow> s) in
      case lookup_global ''pyflatsurf'' of
        Inl e \<Rightarrow> ([], Some e)
      | Inr _ \<Rightarrow>
          (fst (scan_connections api is_between limit sector visited0
                  (saddle_connections api bound)), None))"

text \<open>
  \<^verbatim>\<open>
  def decompositions_breadth_first(self, bound, limit=-1, sector=None, visited=None):
      limit = int(limit)
      if visited is None:
          visited = set()
      for i in range(bound + 1):
          for connection in self._surface.saddle_connections(flatsurf.Bound(i, 0)):
              ...
  \<close>
  The name read in the loop is \<^verbatim>\<open>flatsurf\<close>, once for each \<open>i\<close>.
\<close>

fun breadth_first_bounds ::
  "'k::field flatsurf_api \<Rightarrow> ('k \<times> 'k \<Rightarrow> 'k \<times> 'k \<Rightarrow> 'k \<times> 'k \<Rightarrow> bool) \<Rightarrow> int \<Rightarrow>
   (('k \<times> 'k) \<times> ('k \<times> 'k)) option \<Rightarrow> ('k \<times> 'k) set \<Rightarrow> int list \<Rightarrow> 'k Decomposition generated" where
  "breadth_first_bounds api is_between limit sector visited [] = ([], None)"
| "breadth_first_bounds api is_between limit sector visited (i # rest) =
     (case lookup_global ''flatsurf'' of
        Inl e \<Rightarrow> ([], Some e)
      | Inr _ \<Rightarrow>
          (let (ys, visited') =
                 scan_connections api is_between limit sector visited (saddle_connections api i);
               (zs, r) = breadth_first_bounds api is_between limit sector visited' rest
           in (ys @ zs, r)))"

definition decompositions_breadth_first ::
  "'k::field flatsurf_api \<Rightarrow> ('k \<times> 'k \<Rightarrow> 'k \<times> 'k \<Rightarrow> 'k \<times> 'k \<Rightarrow> bool) \<Rightarrow> int \<Rightarrow> int \<Rightarrow>
   (('k \<times> 'k) \<times> ('k \<times> 'k)) option \<Rightarrow> ('k \<times> 'k) set option \<Rightarrow> 'k Decomposition generated" where
  "decompositions_breadth_first api is_between bound limit sector visited =
     (let visited0 = (case visited of None \<Rightarrow> {} | Some s \<Rightarrow> s) in
      breadth_first_bounds api is_between limit sector visited0 [0..bound])"

subsection \<open>Vectors and matrices\<close>

text \<open>
  A Sage vector is the list of its entries, a Sage matrix the list of its rows. The
  operations below are the ones the code calls on them.
\<close>

definition zero_vec :: "nat \<Rightarrow> 'a::zero list" where
  "zero_vec n = replicate n 0"

definition vec_add :: "'a::plus list \<Rightarrow> 'a list \<Rightarrow> 'a list" where
  "vec_add u v = map2 (+) u v"

definition vec_scale :: "'a::times \<Rightarrow> 'a list \<Rightarrow> 'a list" where
  "vec_scale c v = map ((*) c) v"

definition dot :: "'a::semiring_0 list \<Rightarrow> 'a list \<Rightarrow> 'a" where
  "dot u v = sum_list (map2 (*) u v)"

definition mat_vec :: "'a::semiring_0 list list \<Rightarrow> 'a list \<Rightarrow> 'a list" where
  "mat_vec M v = map (\<lambda>r. dot r v) M"

definition column :: "'a list list \<Rightarrow> nat \<Rightarrow> 'a list" where
  "column M j = map (\<lambda>r. r ! j) M"

text \<open>\<open>transpose_mat n M\<close> is the transpose of a matrix with \<open>n\<close> columns.\<close>

definition transpose_mat :: "nat \<Rightarrow> 'a list list \<Rightarrow> 'a list list" where
  "transpose_mat n M = map (column M) [0..<n]"

definition vec_mat :: "nat \<Rightarrow> 'a::semiring_0 list \<Rightarrow> 'a list list \<Rightarrow> 'a list" where
  "vec_mat n v M = map (\<lambda>j. dot v (column M j)) [0..<n]"

definition mat_mul :: "nat \<Rightarrow> 'a::semiring_0 list list \<Rightarrow> 'a list list \<Rightarrow> 'a list list" where
  "mat_mul n A B = map (\<lambda>r. vec_mat n r B) A"

definition identity_matrix :: "nat \<Rightarrow> 'a::zero_neq_one list list" where
  "identity_matrix n = map (\<lambda>i. map (\<lambda>j. if i = j then 1 else 0) [0..<n]) [0..<n]"

definition zero_matrix :: "nat \<Rightarrow> nat \<Rightarrow> 'a::zero list list" where
  "zero_matrix m n = replicate m (zero_vec n)"

definition is_zero :: "'a::zero list \<Rightarrow> bool" where
  "is_zero v = list_all (\<lambda>x. x = 0) v"

text \<open>\<^verbatim>\<open>sum(vs)\<close> of vectors of length \<open>n\<close>. Python starts the sum at the integer \<open>0\<close>, which
  Sage reads as the zero vector when a vector is added to it and as the zero row when
  it is assigned to a row of a matrix.\<close>

definition vec_sum :: "nat \<Rightarrow> 'a::monoid_add list list \<Rightarrow> 'a list" where
  "vec_sum n vs = foldl vec_add (zero_vec n) vs"

text \<open>
  \<^verbatim>\<open>M.rank()\<close>, by Gauss elimination on the rows: a zero row adds nothing; another row
  counts once and is eliminated from the rows after it at its first nonzero entry.
\<close>

fun pivot_index :: "'a::zero list \<Rightarrow> nat option" where
  "pivot_index [] = None"
| "pivot_index (x # xs) = (if x \<noteq> 0 then Some 0 else map_option Suc (pivot_index xs))"

definition eliminate :: "nat \<Rightarrow> 'a::field list \<Rightarrow> 'a list \<Rightarrow> 'a list" where
  "eliminate j p r = map2 (\<lambda>a b. b - (r ! j / p ! j) * a) p r"

fun rank :: "'a::field list list \<Rightarrow> nat" where
  "rank [] = 0"
| "rank (p # rs) =
     (case pivot_index p of
        None \<Rightarrow> rank rs
      | Some j \<Rightarrow> Suc (rank (map (eliminate j p) rs)))"

text \<open>The rank of an integer matrix is its rank over the rationals.\<close>

definition rank_ZZ :: "int list list \<Rightarrow> nat" where
  "rank_ZZ M = rank (map (map of_int) M :: rat list list)"

text \<open>\<^verbatim>\<open>M.det()\<close> of a square integer matrix, expanded along the first row.\<close>

definition minor_rows :: "nat \<Rightarrow> 'a list list \<Rightarrow> 'a list list" where
  "minor_rows j rs = map (\<lambda>r. take j r @ drop (Suc j) r) rs"

function det :: "int list list \<Rightarrow> int" where
  "det [] = 1"
| "det (r # rs) =
     (\<Sum>j\<leftarrow>[0..<length (r # rs)]. (if even j then 1 else - 1) * (r ! j) * det (minor_rows j rs))"
  by pat_completeness auto
termination
  by (relation "measure length") (auto simp: minor_rows_def)

text \<open>
  \<^verbatim>\<open>A.solve_right(v)\<close> for a square integer matrix: the solution over the rationals, by
  Cramer's rule. The code calls it on the matrix of \<^verbatim>\<open>kontsevich_zorich_cocycle\<close>, whose
  determinant was asserted to be a unit; a singular matrix is answered with
  \<^verbatim>\<open>ValueError\<close>, which Sage raises when it finds no solution.
\<close>

definition replace_column :: "nat \<Rightarrow> 'a list \<Rightarrow> 'a list list \<Rightarrow> 'a list list" where
  "replace_column j v M = map2 (\<lambda>r x. r[j := x]) M v"

definition solve_right :: "int list list \<Rightarrow> int list \<Rightarrow> error + rat list" where
  "solve_right A v =
     (if det A = 0 \<or> length v \<noteq> length A then Inl ValueError
      else Inr (map (\<lambda>j. of_int (det (replace_column j v A)) / of_int (det A))
                  [0..<length A]))"

text \<open>
  Kernels over the rationals. Sage gives a kernel by its echelonized basis: the reduced
  row echelon form of any basis of it. \<open>rref n M\<close> is the list of the nonzero rows of
  the reduced row echelon form of \<open>M\<close>, a matrix with \<open>n\<close> columns.
\<close>

definition rref_step :: "'a::field list list \<times> 'a list list \<Rightarrow> nat \<Rightarrow> 'a list list \<times> 'a list list" where
  "rref_step st j =
     (case find (\<lambda>r. r ! j \<noteq> 0) (snd st) of
        None \<Rightarrow> st
      | Some p \<Rightarrow>
          (let q = map (\<lambda>x. x / p ! j) p;
               clear = (\<lambda>r. map2 (\<lambda>a b. b - r ! j * a) q r)
           in (map clear (fst st) @ [q], map clear (remove1 p (snd st)))))"

definition rref :: "nat \<Rightarrow> 'a::field list list \<Rightarrow> 'a list list" where
  "rref n M = fst (foldl rref_step ([], M) [0..<n])"

definition kernel_vector :: "nat \<Rightarrow> 'a::field list list \<Rightarrow> nat \<Rightarrow> 'a list" where
  "kernel_vector n R f =
     map (\<lambda>k. if k = f then 1
               else (case find (\<lambda>r. pivot_index r = Some k) R of
                       None \<Rightarrow> 0
                     | Some r \<Rightarrow> - (r ! f)))
         [0..<n]"

definition right_kernel_basis :: "nat \<Rightarrow> 'a::field list list \<Rightarrow> 'a list list" where
  "right_kernel_basis n M =
     (let R = rref n M;
          free = filter (\<lambda>k. \<forall>r \<in> set R. pivot_index r \<noteq> Some k) [0..<n]
      in rref n (map (kernel_vector n R) free))"

text \<open>\<^verbatim>\<open>M.left_kernel().matrix()\<close> for a matrix with \<open>m\<close> rows and \<open>n\<close> columns.\<close>

definition left_kernel_matrix :: "nat \<Rightarrow> nat \<Rightarrow> 'a::field list list \<Rightarrow> 'a list list" where
  "left_kernel_matrix m n M = right_kernel_basis m (transpose_mat n M)"

subsection \<open>Dictionaries\<close>

text \<open>A Python dictionary is the list of its items in insertion order;
  \<^verbatim>\<open>d[k] = v\<close> is \<open>AList.update k v d\<close>, and \<^verbatim>\<open>d[k]\<close> raises \<^verbatim>\<open>KeyError\<close> on a missing key.\<close>

definition dict_get :: "('a \<times> 'b) list \<Rightarrow> 'a \<Rightarrow> error + 'b" where
  "dict_get d k = (case map_of d k of None \<Rightarrow> Inl KeyError | Some v \<Rightarrow> Inr v)"

definition dict_keys :: "('a \<times> 'b) list \<Rightarrow> 'a list" where
  "dict_keys d = map fst d"

fun foldl_err :: "('a \<Rightarrow> 'b \<Rightarrow> error + 'a) \<Rightarrow> 'a \<Rightarrow> 'b list \<Rightarrow> error + 'a" where
  "foldl_err f a [] = Inr a"
| "foldl_err f a (x # xs) = (case f a x of Inl e \<Rightarrow> Inl e | Inr a' \<Rightarrow> foldl_err f a' xs)"

subsection \<open>The surface and the orbit closure object\<close>

text \<open>
  The surface of \<^verbatim>\<open>libflatsurf\<close>, as the code reads it. A half-edge is a nonzero integer
  \<open>h\<close> with \<open>1 \<le> \<bar>h\<bar> \<le> nedges\<close>, and \<open>- h\<close> is the opposite half-edge; \<open>nedges\<close> is
  \<^verbatim>\<open>surface.size()\<close>, the number of edges.
\<close>

record 'k surface =
  nedges :: nat
  nextInFace :: "int \<Rightarrow> int"
  nextAtVertex :: "int \<Rightarrow> int"
  fromEdge :: "int \<Rightarrow> 'k \<times> 'k"
  coordinate_ring :: base_ring
  nf_vector :: "'k \<Rightarrow> rat list"

text \<open>
  \<^verbatim>\<open>e.positive()\<close> and \<^verbatim>\<open>e.negative()\<close> of the edge with index \<open>e\<close>, \<^verbatim>\<open>h.edge().index()\<close>
  and \<^verbatim>\<open>h.index()\<close> of a half-edge: the positive half-edges have the even indices, the
  negative ones the odd indices, which is what \<^verbatim>\<open>s1 = -1 if i1%2 else 1\<close> reads.
\<close>

definition positive :: "nat \<Rightarrow> int" where
  "positive e = int e + 1"

definition negative :: "nat \<Rightarrow> int" where
  "negative e = - (int e + 1)"

definition edge_index :: "int \<Rightarrow> nat" where
  "edge_index h = nat (\<bar>h\<bar> - 1)"

definition he_index :: "int \<Rightarrow> nat" where
  "he_index h = (if h > 0 then 2 * nat (h - 1) else 2 * nat (- h - 1) + 1)"

definition he_sign :: "int \<Rightarrow> int" where
  "he_sign h = (if he_index h mod 2 \<noteq> 0 then - 1 else 1)"

text \<open>The half-edges in the order of \<^verbatim>\<open>for e in surface.edges(): for h1 in [e.positive(), e.negative()]\<close>.\<close>

definition half_edges :: "'k surface \<Rightarrow> int list" where
  "half_edges S = concat (map (\<lambda>e. [positive e, negative e]) [0..<nedges S])"

text \<open>
  The attributes of \<^verbatim>\<open>GL2ROrbitClosure\<close>. The spanning set is a list of edges, each by
  its index; \<open>O_H\<close> and \<open>O_Hdual\<close> have one row, a point of the plane, for each of them.
  \<open>O_nf_vector\<close> is \<^verbatim>\<open>x.vector()\<close> on the elements of a number field.
\<close>

record 'k orbit =
  O_surface :: "'k surface"
  O_base_ring :: base_ring
  O_nf_vector :: "'k \<Rightarrow> rat list"
  O_spanning_set :: "nat list"
  O_d :: nat
  O_proj :: "int list list"
  O_Omega :: "int list list"
  O_H :: "('k \<times> 'k) list"
  O_Hdual :: "('k \<times> 'k) list"
  O_U :: "'k list list"
  O_U_rank :: nat

text \<open>\<^verbatim>\<open>self.V(v) * self.Hdual\<close>\<close>

definition holonomy_dual :: "'k::field orbit \<Rightarrow> 'k list \<Rightarrow> 'k \<times> 'k" where
  "holonomy_dual orb v = (dot v (map fst (O_Hdual orb)), dot v (map snd (O_Hdual orb)))"

definition holonomy :: "'k::field orbit \<Rightarrow> 'k list \<Rightarrow> 'k \<times> 'k" where
  "holonomy orb v = (dot v (map fst (O_H orb)), dot v (map snd (O_H orb)))"

subsection \<open>Faces and the spanning tree\<close>

text \<open>
  \<^verbatim>\<open>
  def _half_edge_to_face(self, h):
      surface = self._surface
      h1 = h
      h2 = surface.nextInFace(h1)
      h3 = surface.nextInFace(h2)
      return min([h1, h2, h3], key=lambda x: x.index())
  \<close>
  \<^verbatim>\<open>min\<close> returns the first of the smallest.
\<close>

definition min_by_index :: "int \<Rightarrow> int \<Rightarrow> int" where
  "min_by_index m h = (if he_index h < he_index m then h else m)"

definition half_edge_to_face :: "'k surface \<Rightarrow> int \<Rightarrow> int" where
  "half_edge_to_face S h =
     (let h1 = h; h2 = nextInFace S h1; h3 = nextInFace S h2
      in min_by_index (min_by_index h1 h2) h3)"

text \<open>
  \<^verbatim>\<open>
  def _faces(self):
      seen = set()
      faces = []
      surface = self._surface
      for e in surface.edges():
          for h1 in [e.positive(), e.negative()]:
              if h1 in seen:
                  continue
              h2 = surface.nextInFace(h1)
              h3 = surface.nextInFace(h2)
              faces.append((h1, h2, h3))
              seen.add(h1)
              seen.add(h2)
              seen.add(h3)
      return faces
  \<close>
\<close>

fun faces_loop ::
  "'k surface \<Rightarrow> int set \<Rightarrow> (int \<times> int \<times> int) list \<Rightarrow> int list \<Rightarrow> (int \<times> int \<times> int) list" where
  "faces_loop S seen faces [] = faces"
| "faces_loop S seen faces (h1 # hs) =
     (if h1 \<in> seen then faces_loop S seen faces hs
      else (let h2 = nextInFace S h1; h3 = nextInFace S h2
            in faces_loop S (insert h3 (insert h2 (insert h1 seen))) (faces @ [(h1, h2, h3)]) hs))"

definition faces :: "'k surface \<Rightarrow> (int \<times> int \<times> int) list" where
  "faces S = faces_loop S {} [] (half_edges S)"

text \<open>
  The traversal of \<^verbatim>\<open>_spanning_tree\<close>. One turn of \<^verbatim>\<open>for _ in range(3)\<close>, before
  \<^verbatim>\<open>f = self._surface.nextInFace(f)\<close>:
  \<^verbatim>\<open>
  f1 = -f
  g = self._half_edge_to_face(f1)
  if g not in t:
      t[g] = f1
      todo.append(g)
      edges.append(f1)
  \<close>
  As above, the stack \<^verbatim>\<open>todo\<close> is kept with its top first.
\<close>

type_synonym st_state = "(int \<times> int option) list \<times> int list \<times> int list"

definition st_visit :: "'k surface \<Rightarrow> int \<Rightarrow> st_state \<Rightarrow> st_state" where
  "st_visit S f st =
     (case st of (t, todo, edges) \<Rightarrow>
        (let f1 = - f; g = half_edge_to_face S f1
         in if g \<notin> set (dict_keys t)
            then (AList.update g (Some f1) t, g # todo, edges @ [f1])
            else st))"

definition st_visit_face :: "'k surface \<Rightarrow> int \<Rightarrow> st_state \<Rightarrow> st_state" where
  "st_visit_face S f st =
     (let f' = nextInFace S f; f'' = nextInFace S f'
      in st_visit S f'' (st_visit S f' (st_visit S f st)))"

text \<open>
  \<^verbatim>\<open>
  while todo:
      f = todo.pop()
      for _ in range(3):
          ...
  \<close>
  Nothing in the code bounds this loop: on a surface that is no finite triangulation
  it need not end, and then the result is \<open>None\<close>.
\<close>

partial_function (option) st_loop ::
  "'k surface \<Rightarrow> st_state \<Rightarrow> ((int \<times> int option) list \<times> int list) option" where
  "st_loop S st =
     (case st of (t, todo, edges) \<Rightarrow>
        (case todo of
           [] \<Rightarrow> Some (t, edges)
         | f # rest \<Rightarrow> st_loop S (st_visit_face S f (t, rest, edges))))"

declare st_loop.simps [code]

text \<open>
  The Gauss reduction of \<^verbatim>\<open>_spanning_tree\<close>, for one half-edge of the tree:
  \<^verbatim>\<open>
  f2 = self._surface.nextInFace(f1)
  f3 = self._surface.nextInFace(f2)
  assert self._surface.nextInFace(f3) == f1
  i1 = f1.index()
  s1 = -1 if i1%2 else 1
  ...
  i1 = f1.edge().index()
  i2 = f2.edge().index()
  i3 = f3.edge().index()
  proj[i1] = -s1*(s2*proj[i2] + s3*proj[i3])
  for j in range(n):
      assert proj[j,i1] == 0
  \<close>
\<close>

definition st_gauss_step ::
  "'k surface \<Rightarrow> int list list \<Rightarrow> int \<Rightarrow> error + int list list" where
  "st_gauss_step S proj f1 =
     (let n = nedges S; f2 = nextInFace S f1; f3 = nextInFace S f2 in
      if nextInFace S f3 \<noteq> f1 then Inl AssertionError
      else (let s1 = he_sign f1; s2 = he_sign f2; s3 = he_sign f3;
                i1 = edge_index f1; i2 = edge_index f2; i3 = edge_index f3
            in if i1 \<ge> n \<or> i2 \<ge> n \<or> i3 \<ge> n then Inl IndexError
               else (let proj' = proj[i1 := vec_scale (- s1)
                                   (vec_add (vec_scale s2 (proj ! i2)) (vec_scale s3 (proj ! i3)))]
                     in if list_ex (\<lambda>j. proj' ! j ! i1 \<noteq> 0) [0..<n] then Inl AssertionError
                        else Inr proj')))"

text \<open>
  \<^verbatim>\<open>
  def _spanning_tree(self, root=None):
      if root is None:
          root = next(iter(self._surface.edges())).positive()
      root = self._half_edge_to_face(root)
      t = {root: None} # face -> half edge to take to go to the root
      todo = [root]
      edges = []  # store edges in topological order to perform Gauss reduction
      ...
      # gauss reduction
      n = self._surface.size()
      proj = identity_matrix(ZZ, n)
      edges.reverse()
      for f1 in edges:
          ...
      return (t, proj)
  \<close>
  The constructor calls it with no root.
\<close>

definition spanning_tree ::
  "'k surface \<Rightarrow> (error + (int \<times> int option) list \<times> int list list) option" where
  "spanning_tree S =
     (if nedges S = 0 then Some (Inl StopIteration)
      else (let root = half_edge_to_face S (positive 0) in
        case st_loop S ([(root, None)], [root], []) of
          None \<Rightarrow> None
        | Some (t, edges) \<Rightarrow>
            Some (case foldl_err (st_gauss_step S) (identity_matrix (nedges S)) (rev edges) of
                    Inl e \<Rightarrow> Inl e
                  | Inr proj \<Rightarrow> Inr (t, proj))))"

subsection \<open>The intersection matrix\<close>

text \<open>
  The contour of \<^verbatim>\<open>_intersection_matrix\<close>. The inner loop
  \<^verbatim>\<open>
  while h not in all_edges:
      h = self._surface.nextAtVertex(h)
  \<close>
  and the outer one
  \<^verbatim>\<open>
  while h not in contour_inv:
      contour_inv[h] = len(contour)
      contour.append(h)
      h = self._surface.nextAtVertex(-h)
      while h not in all_edges:
          ...
  \<close>
  \<^verbatim>\<open>contour_inv\<close> maps each element of \<^verbatim>\<open>contour\<close> to its position.
\<close>

partial_function (option) skip_to_spanning :: "'k surface \<Rightarrow> int set \<Rightarrow> int \<Rightarrow> int option" where
  "skip_to_spanning S all_edges h =
     (if h \<in> all_edges then Some h else skip_to_spanning S all_edges (nextAtVertex S h))"

partial_function (option) contour_loop ::
  "'k surface \<Rightarrow> int set \<Rightarrow> int list \<Rightarrow> int \<Rightarrow> int list option" where
  "contour_loop S all_edges contour h =
     (if h \<in> set contour then Some contour
      else Option.bind (skip_to_spanning S all_edges (nextAtVertex S (- h)))
             (contour_loop S all_edges (contour @ [h])))"

declare skip_to_spanning.simps [code]

declare contour_loop.simps [code]

definition contour_inv :: "int list \<Rightarrow> (int \<times> nat) list" where
  "contour_inv contour = zip contour [0..<length contour]"

text \<open>
  \<^verbatim>\<open>
  pi1 = contour_inv[ei.positive()]
  pi2 = contour_inv[ei.negative()]
  if pi1 > pi2:
      si = -1
      pi1, pi2 = pi2, pi1
  else:
      si = 1
  \<close>
\<close>

definition contour_positions :: "(int \<times> nat) list \<Rightarrow> nat \<Rightarrow> error + nat \<times> nat \<times> int" where
  "contour_positions cinv e =
     (case dict_get cinv (positive e) of
        Inl err \<Rightarrow> Inl err
      | Inr p1 \<Rightarrow>
          (case dict_get cinv (negative e) of
             Inl err \<Rightarrow> Inl err
           | Inr p2 \<Rightarrow> if p1 > p2 then Inr (p2, p1, - 1) else Inr (p1, p2, 1)))"

text \<open>
  The body of the loop over \<open>j\<close>:
  \<^verbatim>\<open>
  if (pj2 < pi1) or (pi2 < pj1) or \
     (pj1 > pi1 and pj2 < pi2) or \
     (pj1 < pi1 and pj2 > pi2):
      # no intersection
      continue
  if pi1 < pj1 < pi2:
      # one sign
      Omega[i,j] = si * sj
  else:
      # other sign
      assert pi1 < pj2 < pi2, (pi1, pi2, pj1, pj2)
      Omega[i,j] = -si*sj
  Omega[j,i] = - Omega[i,j]
  \<close>
\<close>

definition set_entry :: "'a list list \<Rightarrow> nat \<Rightarrow> nat \<Rightarrow> 'a \<Rightarrow> 'a list list" where
  "set_entry M i j x = M[i := (M ! i)[j := x]]"

definition omega_pair ::
  "(int \<times> nat) list \<Rightarrow> nat list \<Rightarrow> nat \<Rightarrow> nat \<times> nat \<times> int \<Rightarrow> int list list \<Rightarrow> nat \<Rightarrow>
   error + int list list" where
  "omega_pair cinv spanning_set i pos_i Omega j =
     (case pos_i of (pi1, pi2, si) \<Rightarrow>
        (case contour_positions cinv (spanning_set ! j) of
           Inl err \<Rightarrow> Inl err
         | Inr (pj1, pj2, sj) \<Rightarrow>
             if pj2 < pi1 \<or> pi2 < pj1 \<or> (pj1 > pi1 \<and> pj2 < pi2) \<or> (pj1 < pi1 \<and> pj2 > pi2)
             then Inr Omega
             else if pi1 < pj1 \<and> pj1 < pi2
             then (let Omega' = set_entry Omega i j (si * sj)
                   in Inr (set_entry Omega' j i (- (Omega' ! i ! j))))
             else if \<not> (pi1 < pj2 \<and> pj2 < pi2) then Inl AssertionError
             else (let Omega' = set_entry Omega i j (- si * sj)
                   in Inr (set_entry Omega' j i (- (Omega' ! i ! j))))))"

definition omega_row ::
  "(int \<times> nat) list \<Rightarrow> nat list \<Rightarrow> int list list \<Rightarrow> nat \<Rightarrow> error + int list list" where
  "omega_row cinv spanning_set Omega i =
     (case contour_positions cinv (spanning_set ! i) of
        Inl err \<Rightarrow> Inl err
      | Inr pos_i \<Rightarrow>
          foldl_err (omega_pair cinv spanning_set i pos_i) Omega [Suc i..<length spanning_set])"

text \<open>
  \<^verbatim>\<open>
  def _intersection_matrix(self, t, spanning_set):
      d = len(spanning_set)
      h = spanning_set[0].positive()
      all_edges = set([e.positive() for e in spanning_set])
      all_edges.update([e.negative() for e in spanning_set])
      contour = []
      contour_inv = {}   # half edge -> position in contour
      ...
      assert len(contour) == len(all_edges)
      Omega = matrix(ZZ, d)
      for i in range(len(spanning_set)):
          ...
      return Omega
  \<close>
\<close>

definition intersection_matrix ::
  "'k surface \<Rightarrow> nat list \<Rightarrow> (error + int list list) option" where
  "intersection_matrix S spanning_set =
     (case spanning_set of
        [] \<Rightarrow> Some (Inl IndexError)
      | e0 # _ \<Rightarrow>
          (let d = length spanning_set;
               all_edges = map positive spanning_set @ map negative spanning_set
           in case contour_loop S (set all_edges) [] (positive e0) of
                None \<Rightarrow> None
              | Some contour \<Rightarrow>
                  Some (if length contour \<noteq> length (remdups all_edges) then Inl AssertionError
                        else foldl_err (omega_row (contour_inv contour) spanning_set)
                               (zero_matrix d d) [0..<d])))"

subsection \<open>The constructor\<close>

text \<open>
  \<^verbatim>\<open>
  t, m = self._spanning_tree()
  assert set(t.keys()) == set(f[0] for f in self._faces())
  self.spanning_set = []
  v = set(t.values())
  for e in self._surface.edges():
      if e.positive() not in v and e.negative() not in v:
          self.spanning_set.append(e)
  self.d = len(self.spanning_set)
  assert 3*self.d - 3 == self._surface.size()
  assert m.rank() == self.d
  m = m.transpose()
  # projection matrix from Z^E to H_1(S, Sigma; Z) in the basis
  # of spanning edges
  self.proj = matrix(ZZ, [r for r in m.rows() if not r.is_zero()])
  \<close>
  The result is the spanning set and the matrix \<^verbatim>\<open>proj\<close>.
\<close>

definition spanning_set_of :: "'k surface \<Rightarrow> (int \<times> int option) list \<Rightarrow> nat list" where
  "spanning_set_of S t =
     filter (\<lambda>e. Some (positive e) \<notin> snd ` set t \<and> Some (negative e) \<notin> snd ` set t)
       [0..<nedges S]"

definition projection ::
  "'k surface \<Rightarrow> (error + (int \<times> int option) list \<times> nat list \<times> int list list) option" where
  "projection S =
     (case spanning_tree S of
        None \<Rightarrow> None
      | Some (Inl e) \<Rightarrow> Some (Inl e)
      | Some (Inr (t, m)) \<Rightarrow>
          Some (if set (dict_keys t) \<noteq> set (map fst (faces S)) then Inl AssertionError
                else (let spanning_set = spanning_set_of S t; d = length spanning_set in
                  if 3 * int d - 3 \<noteq> int (nedges S) then Inl AssertionError
                  else if rank_ZZ m \<noteq> d then Inl AssertionError
                  else Inr (t, spanning_set,
                            filter (\<lambda>r. \<not> is_zero r) (transpose_mat (nedges S) m)))))"

text \<open>
  The rest of the constructor:
  \<^verbatim>\<open>
  self.Omega = self._intersection_matrix(t, self.spanning_set)
  ...
  self.V = VectorSpace(self.V2.sage_base_ring, self.d)
  self.H = matrix(self.V2.sage_base_ring, self.d, 2)
  for i in range(self.d):
      s = self._surface.fromEdge(self.spanning_set[i].positive())
      self.H[i] = self.V2sage(self.V2(s))
  self.Hdual = self.Omega * self.H
  self._U = matrix(self.V2.sage_base_ring, self.d)
  self._U[:2] = self.H.transpose()
  self._U_rank = 2
  \<close>
  The argument is a translation surface already converted by \<^verbatim>\<open>to_pyflatsurf\<close>. The two
  rows of the transpose of \<^verbatim>\<open>H\<close> do not fit a matrix with fewer than two rows.
\<close>

definition pair_scale :: "'k::times \<Rightarrow> 'k \<times> 'k \<Rightarrow> 'k \<times> 'k" where
  "pair_scale c p = (c * fst p, c * snd p)"

definition Hdual_of :: "int list list \<Rightarrow> ('k::field_char_0 \<times> 'k) list \<Rightarrow> ('k \<times> 'k) list" where
  "Hdual_of Omega H =
     map (\<lambda>r. (dot (map of_int r) (map fst H), dot (map of_int r) (map snd H))) Omega"

definition GL2ROrbitClosure :: "'k::field_char_0 surface \<Rightarrow> (error + 'k orbit) option" where
  "GL2ROrbitClosure S =
     (case projection S of
        None \<Rightarrow> None
      | Some (Inl e) \<Rightarrow> Some (Inl e)
      | Some (Inr (t, spanning_set, proj)) \<Rightarrow>
          (case intersection_matrix S spanning_set of
             None \<Rightarrow> None
           | Some (Inl e) \<Rightarrow> Some (Inl e)
           | Some (Inr Omega) \<Rightarrow>
               (let d = length spanning_set;
                    H = map (\<lambda>e. fromEdge S (positive e)) spanning_set
                in Some (if d < 2 then Inl DimensionError
                         else Inr \<lparr>O_surface = S,
                                   O_base_ring = coordinate_ring S,
                                   O_nf_vector = nf_vector S,
                                   O_spanning_set = spanning_set,
                                   O_d = d,
                                   O_proj = proj,
                                   O_Omega = Omega,
                                   O_H = H,
                                   O_Hdual = Hdual_of Omega H,
                                   O_U = (zero_matrix d d)[0 := map fst H, 1 := map snd H],
                                   O_U_rank = 2\<rparr>))))"

subsection \<open>\<^verbatim>\<open>boundaries\<close> and \<^verbatim>\<open>lift\<close>\<close>

text \<open>
  \<^verbatim>\<open>
  for (f1,f2,f3) in self._faces():
      i1 = f1.index()
      s1 = -1 if i1%2 else 1
      ...
      i1 = f1.edge().index()
      i2 = f2.edge().index()
      i3 = f3.edge().index()
      v = [0] * n
      v[i1] = 1
      v[i2] = s1 * s2
      v[i3] = s1 * s3
      B.append(V(v))
  \<close>
\<close>

definition boundary :: "'k surface \<Rightarrow> int \<times> int \<times> int \<Rightarrow> error + int list" where
  "boundary S f =
     (case f of (f1, f2, f3) \<Rightarrow>
        (let n = nedges S;
             s1 = he_sign f1; s2 = he_sign f2; s3 = he_sign f3;
             i1 = edge_index f1; i2 = edge_index f2; i3 = edge_index f3
         in if i1 \<ge> n \<or> i2 \<ge> n \<or> i3 \<ge> n then Inl IndexError
            else Inr ((zero_vec n)[i1 := 1, i2 := s1 * s2, i3 := s1 * s3])))"

definition boundaries :: "'k surface \<Rightarrow> error + int list list" where
  "boundaries S =
     foldl_err (\<lambda>B f. case boundary S f of Inl e \<Rightarrow> Inl e | Inr b \<Rightarrow> Inr (B @ [b])) [] (faces S)"

text \<open>
  \<^verbatim>\<open>
  def lift(self, v):
      bdry = self.boundaries()
      n = self._surface.edges().size()
      k = len(self.spanning_set)
      assert k + len(bdry) == n + 1
      A = matrix(self.V2.sage_base_ring, n+1, n)
      for i,e in enumerate(self.spanning_set):
          A[i,e.index()] = 1
      for i,b in enumerate(bdry):
          A[k+i,:] = b
      u = vector(self.V2.sage_base_ring, n + 1)
      u[:k] = v
      return A.solve_right(u)
  \<close>
  \<open>lift_system\<close> is the matrix \<open>A\<close> and the right-hand side \<open>u\<close>. \<^verbatim>\<open>A.solve_right(u)\<close>
  returns a vector \<open>x\<close> with \<open>A x = u\<close> and raises \<^verbatim>\<open>ValueError\<close> when there is none:
  \<open>is_lift orb v x\<close> says that \<open>x\<close> is such a result of \<^verbatim>\<open>lift(v)\<close>.
\<close>

definition unit_vec :: "nat \<Rightarrow> nat \<Rightarrow> 'a::zero_neq_one list" where
  "unit_vec n e = (zero_vec n)[e := 1]"

definition lift_system ::
  "'k::field_char_0 orbit \<Rightarrow> 'k list \<Rightarrow> error + 'k list list \<times> 'k list" where
  "lift_system orb v =
     (case boundaries (O_surface orb) of
        Inl e \<Rightarrow> Inl e
      | Inr bdry \<Rightarrow>
          (let n = nedges (O_surface orb); k = length (O_spanning_set orb) in
           if k + length bdry \<noteq> n + 1 then Inl AssertionError
           else if list_ex (\<lambda>e. e \<ge> n) (O_spanning_set orb) then Inl IndexError
           else if length v \<noteq> k then Inl DimensionError
           else Inr (map (unit_vec n) (O_spanning_set orb) @ map (map of_int) bdry,
                     v @ zero_vec (n + 1 - k))))"

definition is_lift :: "'k::field_char_0 orbit \<Rightarrow> 'k list \<Rightarrow> 'k list \<Rightarrow> bool" where
  "is_lift orb v x \<longleftrightarrow>
     (case lift_system orb v of
        Inl e \<Rightarrow> False
      | Inr (A, u) \<Rightarrow> length x = nedges (O_surface orb) \<and> mat_vec A x = u)"

subsection \<open>\<^verbatim>\<open>Decomposition.kontsevich_zorich_cocycle\<close>\<close>

text \<open>
  \<^verbatim>\<open>
  if i1 < 0:
      s1 = -1
      i1 = -i1-1
  else:
      s1 = 1
  \<close>
\<close>

definition signed_index :: "int \<Rightarrow> int \<times> nat" where
  "signed_index i = (if i < 0 then (- 1, nat (- i - 1)) else (1, nat i))"

text \<open>
  The first loop of \<^verbatim>\<open>kontsevich_zorich_cocycle\<close>, for one element of the perimeter of
  the component \<open>i\<close>:
  \<^verbatim>\<open>
  sc_comp[sc] = i
  if sc not in sc_index:
      sc_index[sc] = n
      sc_pos.append(sc)
      sc_index[-sc] = -n-1
      n += 1
  \<close>
\<close>

type_synonym kz_indices = "int list \<times> (int \<times> nat) list \<times> (int \<times> int) list \<times> int"

definition kz_index_sc :: "nat \<Rightarrow> kz_indices \<Rightarrow> int \<Rightarrow> kz_indices" where
  "kz_index_sc i st sc =
     (case st of (sc_pos, sc_comp, sc_index, n) \<Rightarrow>
        (let sc_comp' = AList.update sc i sc_comp in
         if sc \<notin> set (dict_keys sc_index)
         then (sc_pos @ [sc], sc_comp',
               AList.update (- sc) (- n - 1) (AList.update sc n sc_index), n + 1)
         else (sc_pos, sc_comp', sc_index, n)))"

definition kz_index :: "'k component list \<Rightarrow> kz_indices" where
  "kz_index comps =
     foldl (\<lambda>st ic. foldl (kz_index_sc (fst ic)) st (map saddleConnection (perimeter (snd ic))))
       ([], [], [], 0) (enumerate 0 comps)"

text \<open>
  \<^verbatim>\<open>_spanning_tree_decomposition\<close>, the traversal. For one element of the perimeter:
  \<^verbatim>\<open>
  sc1 = -sc.saddleConnection()
  j = sc_comp[sc1]
  if j not in t:
      t[j] = sc1
      todo.append(j)
      edges.append(sc1)
  \<close>
  The stack \<^verbatim>\<open>todo\<close> is kept with its top first.
\<close>

type_synonym std_state = "(nat \<times> int option) list \<times> nat list \<times> int list"

fun std_visit :: "(int \<times> nat) list \<Rightarrow> std_state \<Rightarrow> int list \<Rightarrow> error + std_state" where
  "std_visit sc_comp st [] = Inr st"
| "std_visit sc_comp st (sc # scs) =
     (case dict_get sc_comp (- sc) of
        Inl e \<Rightarrow> Inl e
      | Inr j \<Rightarrow>
          (case st of (t, todo, edges) \<Rightarrow>
             if j \<notin> set (dict_keys t)
             then std_visit sc_comp (AList.update j (Some (- sc)) t, j # todo, edges @ [- sc]) scs
             else std_visit sc_comp st scs))"

lemma std_visit_measure:
  "std_visit sc_comp (t, todo, edges) scs = Inr (t', todo', edges') \<Longrightarrow>
   2 * card (snd ` set sc_comp - set (dict_keys t')) + length todo'
     \<le> 2 * card (snd ` set sc_comp - set (dict_keys t)) + length todo"
proof (induction scs arbitrary: t todo edges)
  case Nil
  then show ?case by simp
next
  case (Cons sc scs)
  show ?case
  proof (cases "dict_get sc_comp (- sc)")
    case (Inl e)
    with Cons.prems show ?thesis by simp
  next
    case (Inr j)
    then have jV: "j \<in> snd ` set sc_comp"
      by (auto simp: dict_get_def split: option.splits dest!: map_of_SomeD intro: rev_image_eqI)
    show ?thesis
    proof (cases "j \<in> set (dict_keys t)")
      case True
      with Cons Inr show ?thesis by simp
    next
      case False
      let ?V = "snd ` set sc_comp"
      let ?t = "AList.update j (Some (- sc)) t"
      have keys: "set (dict_keys ?t) = insert j (set (dict_keys t))"
        by (auto simp: dict_keys_def update_keys)
      have jin: "j \<in> ?V - set (dict_keys t)" using jV False by simp
      have fin: "finite (?V - set (dict_keys t))" by simp
      have "?V - set (dict_keys ?t) = (?V - set (dict_keys t)) - {j}"
        using keys by auto
      then have "Suc (card (?V - set (dict_keys ?t))) = card (?V - set (dict_keys t))"
        using card_Suc_Diff1[OF fin jin] by simp
      moreover from Cons.prems Inr False
      have "std_visit sc_comp (?t, j # todo, edges @ [- sc]) scs = Inr (t', todo', edges')"
        by simp
      from Cons.IH[OF this]
      have "2 * card (?V - set (dict_keys t')) + length todo'
              \<le> 2 * card (?V - set (dict_keys ?t)) + Suc (length todo)" by simp
      ultimately show ?thesis by linarith
    qed
  qed
qed

text \<open>
  \<^verbatim>\<open>
  while todo:
      i = todo.pop()
      c = components[i]
      for sc in c.perimeter():
          ...
  \<close>
\<close>

function std_loop ::
  "'k component list \<Rightarrow> (int \<times> nat) list \<Rightarrow> std_state \<Rightarrow>
   error + (nat \<times> int option) list \<times> int list" where
  "std_loop comps sc_comp (t, [], edges) = Inr (t, edges)"
| "std_loop comps sc_comp (t, i # todo, edges) =
     (if i \<ge> length comps then Inl IndexError
      else (case std_visit sc_comp (t, todo, edges)
                   (map saddleConnection (perimeter (comps ! i))) of
              Inl e \<Rightarrow> Inl e
            | Inr st \<Rightarrow> std_loop comps sc_comp st))"
  by pat_completeness auto
termination
proof (relation "measure (\<lambda>(comps, sc_comp, t, todo, edges).
         2 * card (snd ` set sc_comp - set (dict_keys t)) + length todo)", goal_cases)
  case 1
  then show ?case by simp
next
  case (2 comps sc_comp t i todo edges st)
  obtain t' todo' edges' where st: "st = (t', todo', edges')" by (cases st) auto
  from std_visit_measure[OF 2(2)[unfolded st]] show ?case by (simp add: st)
qed

text \<open>
  \<^verbatim>\<open>_spanning_tree_decomposition\<close>, the Gauss reduction. For one element of the
  perimeter of the component of \<^verbatim>\<open>sc1\<close>:
  \<^verbatim>\<open>
  sc = p.saddleConnection()
  if sc == sc1:
      continue
  j = sc_index[sc]
  if j < 0:
      s = -1
      j = -j-1
  else:
      s = 1
  proj[i1] = - s1 * s * proj[j]
  \<close>
\<close>

fun std_reduce_row ::
  "(int \<times> int) list \<Rightarrow> int \<Rightarrow> nat \<Rightarrow> int \<Rightarrow> int list list \<Rightarrow> int list \<Rightarrow> error + int list list" where
  "std_reduce_row sc_index s1 i1 sc1 proj [] = Inr proj"
| "std_reduce_row sc_index s1 i1 sc1 proj (sc # scs) =
     (if sc = sc1 then std_reduce_row sc_index s1 i1 sc1 proj scs
      else (case dict_get sc_index sc of
              Inl e \<Rightarrow> Inl e
            | Inr j0 \<Rightarrow>
                (case signed_index j0 of (s, j) \<Rightarrow>
                   if j \<ge> length proj then Inl IndexError
                   else std_reduce_row sc_index s1 i1 sc1
                          (proj[i1 := vec_scale (- s1 * s) (proj ! j)]) scs)))"

text \<open>
  \<^verbatim>\<open>
  for sc1 in edges:
      i1 = sc_index[sc1]
      ...
      comp = components[sc_comp[sc1]]
      proj[i1] = 0
      for p in comp.perimeter():
          ...
      spanning_set.remove(i1)
      for j in range(n):
          assert proj[j,i1] == 0
  \<close>
  The set \<^verbatim>\<open>spanning_set\<close> is kept as the increasing list of its elements, which is what
  \<^verbatim>\<open>sorted(spanning_set)\<close> returns at the end.
\<close>

definition std_gauss_step ::
  "'k component list \<Rightarrow> (int \<times> int) list \<Rightarrow> (int \<times> nat) list \<Rightarrow> nat \<Rightarrow>
   nat list \<times> int list list \<Rightarrow> int \<Rightarrow> error + nat list \<times> int list list" where
  "std_gauss_step comps sc_index sc_comp n st sc1 =
     (case dict_get sc_index sc1 of
        Inl e \<Rightarrow> Inl e
      | Inr i0 \<Rightarrow>
          (case signed_index i0 of (s1, i1) \<Rightarrow>
             (case dict_get sc_comp sc1 of
                Inl e \<Rightarrow> Inl e
              | Inr ci \<Rightarrow>
                  if ci \<ge> length comps \<or> i1 \<ge> n then Inl IndexError
                  else (case std_reduce_row sc_index s1 i1 sc1 ((snd st)[i1 := zero_vec n])
                               (map saddleConnection (perimeter (comps ! ci))) of
                          Inl e \<Rightarrow> Inl e
                        | Inr proj \<Rightarrow>
                            if i1 \<notin> set (fst st) then Inl KeyError
                            else if list_ex (\<lambda>j. proj ! j ! i1 \<noteq> 0) [0..<n]
                            then Inl AssertionError
                            else Inr (remove1 i1 (fst st), proj)))))"

text \<open>
  \<^verbatim>\<open>
  def _spanning_tree_decomposition(self, sc_index, sc_comp):
      components = [c for c in self.decomposition.components()]
      n = len(sc_index)
      assert n % 2 == 0
      n //= 2
      for p in components[0].perimeter():
          break
      root = p.saddleConnection()
      t = {0: None}
      todo = [0]
      edges = []
      ...
      spanning_set = set(range(n))
      proj = identity_matrix(ZZ, n)
      edges.reverse()
      ...
      return (t, sorted(spanning_set), proj)
  \<close>
  With an empty first perimeter the name \<^verbatim>\<open>p\<close> is unbound at \<^verbatim>\<open>root = ...\<close>.
\<close>

definition spanning_tree_decomposition ::
  "'k flow_decomposition \<Rightarrow> (int \<times> int) list \<Rightarrow> (int \<times> nat) list \<Rightarrow>
   error + (nat \<times> int option) list \<times> nat list \<times> int list list" where
  "spanning_tree_decomposition fd sc_index sc_comp =
     (let comps = components fd in
      if length sc_index mod 2 \<noteq> 0 then Inl AssertionError
      else (let n = length sc_index div 2 in
        case comps of
          [] \<Rightarrow> Inl IndexError
        | c0 # _ \<Rightarrow>
            if perimeter c0 = [] then Inl (NameError ''p'')
            else (case std_loop comps sc_comp ([(0, None)], [0], []) of
                    Inl e \<Rightarrow> Inl e
                  | Inr (t, edges) \<Rightarrow>
                      (case foldl_err (std_gauss_step comps sc_index sc_comp n)
                                ([0..<n], identity_matrix n) (rev edges) of
                         Inl e \<Rightarrow> Inl e
                       | Inr (spanning_set, proj) \<Rightarrow> Inr (t, spanning_set, proj)))))"

text \<open>
  The base change:
  \<^verbatim>\<open>
  A = matrix(ZZ, self.orbit.d)
  for i, sc in enumerate(spanning_set):
      sc = sc_pos[sc]
      c = sc.chain()
      v = [0] * self.orbit.d
      for edge in self.orbit._surface.edges():
          A[i] += ZZ(str(c[edge])) * self.orbit.proj.column(edge.index())
  \<close>
\<close>

definition kz_add_edge ::
  "'k orbit \<Rightarrow> 'k flow_decomposition \<Rightarrow> nat \<Rightarrow> int \<Rightarrow> int list list \<Rightarrow> nat \<Rightarrow> error + int list list" where
  "kz_add_edge orb fd i sc A e =
     (if i \<ge> length A \<or> list_ex (\<lambda>r. e \<ge> length r) (O_proj orb) then Inl IndexError
      else Inr (A[i := vec_add (A ! i) (vec_scale (sc_chain fd sc e) (column (O_proj orb) e))]))"

definition kz_base_change ::
  "'k orbit \<Rightarrow> 'k flow_decomposition \<Rightarrow> int list \<Rightarrow> nat list \<Rightarrow> error + int list list" where
  "kz_base_change orb fd sc_pos spanning_set =
     foldl_err
       (\<lambda>A ik. if snd ik \<ge> length sc_pos then Inl IndexError
               else foldl_err (kz_add_edge orb fd (fst ik) (sc_pos ! snd ik)) A
                      [0..<nedges (O_surface orb)])
       (zero_matrix (O_d orb) (O_d orb)) (enumerate 0 spanning_set)"

text \<open>
  \<^verbatim>\<open>
  def kontsevich_zorich_cocycle(self):
      ...
      t, spanning_set, proj = self._spanning_tree_decomposition(sc_index, sc_comp)
      assert proj.rank() == len(spanning_set) == n - len(components) + 1, self.u
      proj = proj.transpose()
      proj = matrix(ZZ, [r for r in proj.rows() if not r.is_zero()])
      assert proj.nrows() == self.orbit.proj.nrows(), self.u
      ...
      assert A.det().is_unit()
      return A, sc_index, proj
  \<close>
\<close>

definition kontsevich_zorich_cocycle ::
  "'k orbit \<Rightarrow> 'k Decomposition \<Rightarrow> error + int list list \<times> (int \<times> int) list \<times> int list list" where
  "kontsevich_zorich_cocycle orb D =
     (let fd = D_decomposition D; comps = components fd in
      case kz_index comps of (sc_pos, sc_comp, sc_index, n) \<Rightarrow>
        (case spanning_tree_decomposition fd sc_index sc_comp of
           Inl e \<Rightarrow> Inl e
         | Inr (t, spanning_set, proj) \<Rightarrow>
             if \<not> (rank_ZZ proj = length spanning_set
                   \<and> int (length spanning_set) = n - int (length comps) + 1)
             then Inl AssertionError
             else (let proj' = filter (\<lambda>r. \<not> is_zero r) (transpose_mat (length proj) proj) in
               if length proj' \<noteq> length (O_proj orb) then Inl AssertionError
               else (case kz_base_change orb fd sc_pos spanning_set of
                       Inl e \<Rightarrow> Inl e
                     | Inr A \<Rightarrow>
                         if det A = 1 \<or> det A = - 1 then Inr (A, sc_index, proj')
                         else Inl AssertionError))))"

subsection \<open>\<^verbatim>\<open>Decomposition.circumference_width\<close>\<close>

text \<open>
  \<^verbatim>\<open>
  def circumference_width(self, component, sc_index, proj):
      if component.cylinder() != True:
          raise ValueError
      A, sc_index, proj = self.kontsevich_zorich_cocycle()
      perimeters = [p for p in component.perimeter()]
      per = perimeters[0]
      assert not per.vertical()
      sc = per.saddleConnection()
      i = sc_index[sc]
      if i < 0:
          s = -1
          i = -i-1
      else:
          s = 1
      v = s * proj.column(i)
      circumference = -A.solve_right(v)
      hol = self.orbit.holonomy_dual(circumference)
      holbis = component.circumferenceHolonomy()
      holbis = self.orbit.V2sage(self.orbit.V2(holbis))
      assert hol == holbis, (hol, holbis)
      u = sc.vector()
      u = self.orbit.V2sage(self.orbit.V2(u))
      width = self.u[1] * u[0] - self.u[0] * u[1]
      widthbis = self.orbit.Ksage_constructor(component.width())
      assert width == widthbis, (width, widthbis)
      return circumference, width
  \<close>
  The two arguments \<^verbatim>\<open>sc_index\<close> and \<^verbatim>\<open>proj\<close> are overwritten before they are read.
\<close>

definition circumference_width ::
  "'k::field_char_0 orbit \<Rightarrow> 'k Decomposition \<Rightarrow> 'k component \<Rightarrow> error + 'k list \<times> 'k" where
  "circumference_width orb D cmp =
     (if cylinder cmp \<noteq> TTrue then Inl ValueError
      else (case kontsevich_zorich_cocycle orb D of
        Inl e \<Rightarrow> Inl e
      | Inr (A, sc_index, proj) \<Rightarrow>
          (case perimeter cmp of
             [] \<Rightarrow> Inl IndexError
           | per # _ \<Rightarrow>
               if vertical per then Inl AssertionError
               else (let sc = saddleConnection per in
                 case dict_get sc_index sc of
                   Inl e \<Rightarrow> Inl e
                 | Inr i0 \<Rightarrow>
                     (case signed_index i0 of (s, i) \<Rightarrow>
                        if list_ex (\<lambda>r. i \<ge> length r) proj then Inl IndexError
                        else (case solve_right A (vec_scale s (column proj i)) of
                          Inl e \<Rightarrow> Inl e
                        | Inr x \<Rightarrow>
                            (let circumference = map (\<lambda>q. - of_rat q) x in
                             if holonomy_dual orb circumference \<noteq> circumferenceHolonomy cmp
                             then Inl AssertionError
                             else (let u = sc_vector (D_decomposition D) sc;
                                       w = snd (D_u D) * fst u - fst (D_u D) * snd u
                                   in if w \<noteq> width cmp then Inl AssertionError
                                      else Inr (circumference, w)))))))))"

subsection \<open>\<^verbatim>\<open>Decomposition.cylinder_deformation_subspace\<close>\<close>

text \<open>
  The loop over the components:
  \<^verbatim>\<open>
  for comp in self.decomposition.components():
      if comp.cylinder() == False:
          continue
      elif comp.cylinder() == True:
          circ, width = self.circumference_width(comp, sc_index, proj)
          vcyls.append(width * circ)
          hol = comp.circumferenceHolonomy()
          hol = self.orbit.V2sage(self.orbit.V2(hol))
          area = self.orbit.Ksage_constructor(comp.area())
          modules.append(area / (hol[0]**2 + hol[1]**2))
      else:
          return []
  \<close>
  \<open>None\<close> is the early \<^verbatim>\<open>return []\<close>; otherwise the loop ends with the two lists.
\<close>

fun cds_collect ::
  "'k::field_char_0 orbit \<Rightarrow> 'k Decomposition \<Rightarrow> 'k list list \<Rightarrow> 'k list \<Rightarrow> 'k component list \<Rightarrow>
   error + ('k list list \<times> 'k list) option" where
  "cds_collect orb D vcyls modules [] = Inr (Some (vcyls, modules))"
| "cds_collect orb D vcyls modules (cmp # comps) =
     (if cylinder cmp = TFalse then cds_collect orb D vcyls modules comps
      else if cylinder cmp = TTrue
      then (case circumference_width orb D cmp of
              Inl e \<Rightarrow> Inl e
            | Inr (circ, w) \<Rightarrow>
                (let hol = circumferenceHolonomy cmp;
                     q = (fst hol)\<^sup>2 + (snd hol)\<^sup>2
                 in if q = 0 then Inl ZeroDivisionError
                    else cds_collect orb D (vcyls @ [vec_scale w circ])
                           (modules @ [area cmp / q]) comps))
      else Inr None)"

text \<open>
  The end of the method:
  \<^verbatim>\<open>
  vectors = []
  if self.orbit.V2.sage_base_ring is ZZ or self.orbit.V2.sage_base_ring is QQ:
      vectors.append(sum(vcyls))
  else:
      ncyls = len(vcyls)
      M = matrix([mod.vector() for mod in modules])
      relations = M.left_kernel().matrix()
      for t in relations.right_kernel().basis():
          vectors.append(sum(t[i] / modules[i] * vcyls[i] for i in range(ncyls)))
  return vectors
  \<close>
\<close>

definition cds_vectors ::
  "'k::field_char_0 orbit \<Rightarrow> 'k list list \<Rightarrow> 'k list \<Rightarrow> error + 'k list list" where
  "cds_vectors orb vcyls modules =
     (if O_base_ring orb = Ring_ZZ \<or> O_base_ring orb = Ring_QQ
      then Inr [vec_sum (O_d orb) vcyls]
      else (let ncyls = length vcyls;
                M = map (O_nf_vector orb) modules;
                relations = left_kernel_matrix (length M) (case M of [] \<Rightarrow> 0 | r # _ \<Rightarrow> length r) M;
                ts = right_kernel_basis ncyls relations
            in if ts \<noteq> [] \<and> list_ex (\<lambda>i. modules ! i = 0) [0..<ncyls]
               then Inl ZeroDivisionError
               else Inr (map (\<lambda>t. vec_sum (O_d orb)
                                  (map (\<lambda>i. vec_scale (of_rat (t ! i) / modules ! i) (vcyls ! i))
                                     [0..<ncyls])) ts)))"

text \<open>
  \<^verbatim>\<open>
  def cylinder_deformation_subspace(self):
      v = self.orbit.V()
      modules = []
      vcyls = []
      A, sc_index, proj = self.kontsevich_zorich_cocycle()
      for comp in self.decomposition.components():
          ...
  \<close>
\<close>

definition cylinder_deformation_subspace ::
  "'k::field_char_0 orbit \<Rightarrow> 'k Decomposition \<Rightarrow> error + 'k list list" where
  "cylinder_deformation_subspace orb D =
     (case kontsevich_zorich_cocycle orb D of
        Inl e \<Rightarrow> Inl e
      | Inr _ \<Rightarrow>
          (case cds_collect orb D [] [] (components (D_decomposition D)) of
             Inl e \<Rightarrow> Inl e
           | Inr None \<Rightarrow> Inr []
           | Inr (Some (vcyls, modules)) \<Rightarrow> cds_vectors orb vcyls modules))"

subsection \<open>\<^verbatim>\<open>GL2ROrbitClosure.update_tangent_space_from_flow_decomposition\<close>\<close>

text \<open>
  The loop over the candidate vectors, on the matrix \<open>A\<close> (with \<open>d\<close> columns) and the
  rank \<open>i\<close>:
  \<^verbatim>\<open>
  for v in decomposition.cylinder_deformation_subspace():
      A[i] = v
      r = A.rank()
      if r > i:
          assert r == i+1
          i = self._U_rank = i + 1
          if self._U_rank == self._U.nrows():
              return
  \<close>
\<close>

fun insert_vectors ::
  "nat \<Rightarrow> 'k::field list list \<Rightarrow> nat \<Rightarrow> 'k list list \<Rightarrow> error + 'k list list \<times> nat" where
  "insert_vectors d A i [] = Inr (A, i)"
| "insert_vectors d A i (v # vs) =
     (if i \<ge> length A then Inl IndexError
      else if length v \<noteq> d then Inl DimensionError
      else (let A' = A[i := v]; r = rank A' in
        if r > i
        then (if r \<noteq> i + 1 then Inl AssertionError
              else if i + 1 = length A' then Inr (A', i + 1)
              else insert_vectors d A' (i + 1) vs)
        else insert_vectors d A' i vs))"

text \<open>
  \<^verbatim>\<open>
  def update_tangent_space_from_flow_decomposition(self, decomposition, verbose=False):
      A = self._U
      i = self._U_rank
      if self._U_rank == self._U.nrows():
          return
      for v in decomposition.cylinder_deformation_subspace():
          ...
  \<close>
\<close>

definition update_tangent_space_from_flow_decomposition ::
  "'k::field_char_0 orbit \<Rightarrow> 'k Decomposition \<Rightarrow> error + 'k orbit" where
  "update_tangent_space_from_flow_decomposition orb D =
     (if O_U_rank orb = length (O_U orb) then Inr orb
      else (case cylinder_deformation_subspace orb D of
              Inl e \<Rightarrow> Inl e
            | Inr vs \<Rightarrow>
                (case insert_vectors (O_d orb) (O_U orb) (O_U_rank orb) vs of
                   Inl e \<Rightarrow> Inl e
                 | Inr (A, i) \<Rightarrow> Inr (orb\<lparr>O_U := A, O_U_rank := i\<rparr>))))"

text \<open>\<^verbatim>\<open>dimension\<close> returns \<^verbatim>\<open>self._U_rank\<close>.\<close>

definition dimension :: "'k orbit \<Rightarrow> nat" where
  "dimension orb = O_U_rank orb"

text \<open>
  A run of calls, one for each decomposition of a list, as in
  \<^verbatim>\<open>for d in O.decompositions(...): O.update_tangent_space_from_flow_decomposition(d)\<close>.
\<close>

fun update_all :: "'k::field_char_0 orbit \<Rightarrow> 'k Decomposition list \<Rightarrow> error + 'k orbit" where
  "update_all orb [] = Inr orb"
| "update_all orb (D # Ds) =
     (case update_tangent_space_from_flow_decomposition orb D of
        Inl e \<Rightarrow> Inl e
      | Inr orb' \<Rightarrow> update_all orb' Ds)"

subsection \<open>Linear independence and span\<close>

text \<open>
  The rows of a matrix with \<open>d\<close> columns are linearly independent when the only
  combination of them that is zero in every column has all its coefficients zero; a
  vector is in their span when it is one of their combinations.
\<close>

definition lin_indep :: "nat \<Rightarrow> 'a::field list list \<Rightarrow> bool" where
  "lin_indep d rows \<longleftrightarrow>
     (\<forall>c. (\<forall>k<d. (\<Sum>i<length rows. c i * rows ! i ! k) = 0) \<longrightarrow> (\<forall>i<length rows. c i = 0))"

definition in_span :: "nat \<Rightarrow> 'a::field list list \<Rightarrow> 'a list \<Rightarrow> bool" where
  "in_span d rows v \<longleftrightarrow>
     length v = d \<and> (\<exists>c. \<forall>k<d. v ! k = (\<Sum>i<length rows. c i * rows ! i ! k))"

text \<open>
  The state of the accumulator that the constructor sets up and every insertion keeps:
  the matrix has \<open>d\<close> rows of length \<open>d\<close>, the rank is at most \<open>d\<close>, the rows before the
  rank are linearly independent, and the rows after the row at the rank are zero (the
  row at the rank holds the last candidate).
\<close>

definition acc_inv :: "nat \<Rightarrow> 'a::field list list \<Rightarrow> nat \<Rightarrow> bool" where
  "acc_inv d A i \<longleftrightarrow>
     list_all (\<lambda>r. length r = d) A \<and> i \<le> length A \<and> lin_indep d (take i A)
     \<and> list_all (\<lambda>r. r = zero_vec d) (drop (Suc i) A)"

definition orbit_inv :: "'k::field orbit \<Rightarrow> bool" where
  "orbit_inv orb \<longleftrightarrow>
     length (O_U orb) = O_d orb \<and> acc_inv (O_d orb) (O_U orb) (O_U_rank orb)"

text \<open>
  A cylinder passes the checks of the loop of \<^verbatim>\<open>cylinder_deformation_subspace\<close> when
  \<^verbatim>\<open>circumference_width\<close> returns for it and its circumference holonomy is not zero.
\<close>

definition cylinder_ok :: "'k::field_char_0 orbit \<Rightarrow> 'k Decomposition \<Rightarrow> 'k component \<Rightarrow> bool" where
  "cylinder_ok orb D c \<longleftrightarrow>
     (cylinder c = TTrue \<longrightarrow>
        (case circumference_width orb D c of
           Inl e \<Rightarrow> False
         | Inr r \<Rightarrow> (fst (circumferenceHolonomy c))\<^sup>2 + (snd (circumferenceHolonomy c))\<^sup>2 \<noteq> 0))"

text \<open>A square integer matrix with \<open>d\<close> rows is skew-symmetric.\<close>

definition skew :: "nat \<Rightarrow> int list list \<Rightarrow> bool" where
  "skew d M \<longleftrightarrow>
     length M = d \<and> (\<forall>r\<in>set M. length r = d) \<and> (\<forall>i<d. \<forall>j<d. M ! i ! j = - M ! j ! i)"

subsection \<open>Triangulations and the relations of the faces\<close>

text \<open>
  A half-edge of the surface is a nonzero integer of absolute value at most \<open>nedges\<close>.
  The surface is a triangulation when \<^verbatim>\<open>nextInFace\<close> sends half-edges to half-edges,
  returns to a half-edge after three steps, and never joins the two half-edges of one
  edge: on a translation surface the holonomies of the three sides of a face sum to
  zero, so two sides on the same edge would leave a third side of holonomy zero.
\<close>

definition valid_he :: "'k surface \<Rightarrow> int \<Rightarrow> bool" where
  "valid_he S h \<longleftrightarrow> h \<noteq> 0 \<and> \<bar>h\<bar> \<le> int (nedges S)"

definition wf_surface :: "'k surface \<Rightarrow> bool" where
  "wf_surface S \<longleftrightarrow>
     list_all (\<lambda>h. valid_he S (nextInFace S h)
                 \<and> nextInFace S (nextInFace S (nextInFace S h)) = h
                 \<and> edge_index (nextInFace S h) \<noteq> edge_index h)
       (half_edges S)"

text \<open>The three half-edges of the face of \<open>h\<close>, and a face of \<^verbatim>\<open>_faces\<close> as a list.\<close>

definition cycle :: "'k surface \<Rightarrow> int \<Rightarrow> int set" where
  "cycle S h = {h, nextInFace S h, nextInFace S (nextInFace S h)}"

definition face_list :: "int \<times> int \<times> int \<Rightarrow> int list" where
  "face_list f = (case f of (a, b, c) \<Rightarrow> [a, b, c])"

text \<open>
  What the loop of \<^verbatim>\<open>_faces\<close> keeps: \<open>seen\<close> holds the half-edges of the faces found
  so far, no half-edge is in two of them, each face starts at a half-edge and follows
  \<^verbatim>\<open>nextInFace\<close>, and \<open>seen\<close> is closed under \<^verbatim>\<open>nextInFace\<close>.
\<close>

definition faces_inv :: "'k surface \<Rightarrow> int set \<Rightarrow> (int \<times> int \<times> int) list \<Rightarrow> bool" where
  "faces_inv S seen F \<longleftrightarrow>
     seen = set (concat (map face_list F))
     \<and> distinct (concat (map face_list F))
     \<and> (\<forall>f\<in>set F. valid_he S (fst f)
            \<and> f = (fst f, nextInFace S (fst f), nextInFace S (nextInFace S (fst f))))
     \<and> (\<forall>h\<in>seen. valid_he S h \<and> cycle S h \<subseteq> seen)"

text \<open>
  What the traversal of \<^verbatim>\<open>_spanning_tree\<close> keeps, for the root \<open>r\<close>: the keys of \<open>t\<close>
  are the root and the faces of the half-edges of \<open>edges\<close>, in the order of their
  insertion and without repetition; the values are \<^verbatim>\<open>None\<close> and these half-edges; the
  face on the other side of each half-edge of \<open>edges\<close> was inserted before it; and the
  faces still to visit are keys.
\<close>

definition tree_inv :: "'k surface \<Rightarrow> int \<Rightarrow> st_state \<Rightarrow> bool" where
  "tree_inv S r st \<longleftrightarrow>
     (case st of (t, todo, edges) \<Rightarrow>
        valid_he S r \<and> half_edge_to_face S r = r
        \<and> map fst t = r # map (half_edge_to_face S) edges
        \<and> map snd t = None # map Some edges
        \<and> distinct (map fst t)
        \<and> (\<forall>e\<in>set edges. valid_he S e)
        \<and> (\<forall>k<length edges. half_edge_to_face S (- edges ! k)
               \<in> set (r # take k (map (half_edge_to_face S) edges)))
        \<and> set todo \<subseteq> set (map fst t))"

text \<open>
  \<open>dims n M\<close>: the matrix has \<open>n\<close> rows of length \<open>n\<close>. \<open>relval S M k h\<close> is the column
  \<open>k\<close> of the signed sum of the rows of \<open>M\<close> at the three edges of the face of \<open>h\<close>, and
  the relation of that face holds in \<open>M\<close> when all of these are zero. \<open>sep S a b\<close>: the
  edge of \<open>a\<close> is none of the three edges of the face of \<open>b\<close>.
\<close>

definition dims :: "nat \<Rightarrow> 'a list list \<Rightarrow> bool" where
  "dims n M \<longleftrightarrow> length M = n \<and> (\<forall>r\<in>set M. length r = n)"

definition relval :: "'k surface \<Rightarrow> int list list \<Rightarrow> nat \<Rightarrow> int \<Rightarrow> int" where
  "relval S M k h =
     he_sign h * M ! edge_index h ! k
     + he_sign (nextInFace S h) * M ! edge_index (nextInFace S h) ! k
     + he_sign (nextInFace S (nextInFace S h)) * M ! edge_index (nextInFace S (nextInFace S h)) ! k"

definition rel_holds :: "'k surface \<Rightarrow> int list list \<Rightarrow> int \<Rightarrow> bool" where
  "rel_holds S M h \<longleftrightarrow> (\<forall>k<nedges S. relval S M k h = 0)"

definition sep :: "'k surface \<Rightarrow> int \<Rightarrow> int \<Rightarrow> bool" where
  "sep S a b \<longleftrightarrow> edge_index a \<notin> edge_index ` cycle S b"

subsection \<open>An example: a torus with two marked points\<close>

text \<open>
  The rectangle \<open>[0, 2] \<times> [0, 1]\<close> with opposite sides glued, cut into two unit squares
  and each square into two triangles by its diagonal: six edges (the two bottom sides,
  the two vertical sides and the two diagonals) and two vertices, \<open>(0, 0)\<close> and
  \<open>(1, 0)\<close>. \<open>nextAtVertex\<close> turns counterclockwise around the source of a half-edge.
\<close>

definition torus2 :: "rat surface" where
  "torus2 = \<lparr>nedges = 6,
     nextInFace = (\<lambda>h. if h = 1 then 4 else if h = 4 then - 5 else if h = - 5 then 1
        else if h = 5 then - 1 else if h = - 1 then - 3 else if h = - 3 then 5
        else if h = 2 then 3 else if h = 3 then - 6 else if h = - 6 then 2
        else if h = 6 then - 2 else if h = - 2 then - 4 else if h = - 4 then 6 else 0),
     nextAtVertex = (\<lambda>h. if h = 1 then 5 else if h = 4 then - 1 else if h = - 5 then - 4
        else if h = 5 then 3 else if h = - 1 then - 5 else if h = - 3 then 1
        else if h = 2 then 6 else if h = 3 then - 2 else if h = - 6 then - 3
        else if h = 6 then 4 else if h = - 2 then - 6 else if h = - 4 then 2 else 0),
     fromEdge = (\<lambda>h. if h = 1 then (1, 0) else if h = - 1 then (- 1, 0)
        else if h = 2 then (1, 0) else if h = - 2 then (- 1, 0)
        else if h = 3 then (0, 1) else if h = - 3 then (0, - 1)
        else if h = 4 then (0, 1) else if h = - 4 then (0, - 1)
        else if h = 5 then (1, 1) else if h = - 5 then (- 1, - 1)
        else if h = 6 then (1, 1) else if h = - 6 then (- 1, - 1) else (0, 0)),
     coordinate_ring = Ring_QQ,
     nf_vector = (\<lambda>x. [x])\<rparr>"

text \<open>The object the constructor builds for it (\<open>torus2_constructed\<close> below).\<close>

definition torus2_orbit :: "rat orbit" where
  "torus2_orbit = \<lparr>O_surface = torus2, O_base_ring = Ring_QQ, O_nf_vector = nf_vector torus2,
     O_spanning_set = [2, 4, 5], O_d = 3,
     O_proj = [[- 1, - 1, 1, 1, 0, 0], [1, 0, 0, 0, 1, 0], [0, 1, 0, 0, 0, 1]],
     O_Omega = [[0, 1, 1], [- 1, 0, 0], [- 1, 0, 0]],
     O_H = [(0, 1), (1, 1), (1, 1)],
     O_Hdual = [(2, 2), (0, - 1), (0, - 1)],
     O_U = [[0, 1, 1], [1, 1, 1], [0, 0, 0]],
     O_U_rank = 2\<rparr>"

text \<open>
  The flow in the vertical direction has two components, the two squares. The
  perimeter of each is its bottom side, its right side, its top side and its left side;
  the saddle connection \<open>h\<close> is the half-edge \<open>h\<close>. The classification of each component
  is a parameter.
\<close>

definition torus2_component :: "int list \<Rightarrow> tribool \<Rightarrow> rat component" where
  "torus2_component per cyl =
     \<lparr>cylinder = cyl,
      withoutPeriodicTrajectory =
        (case cyl of TTrue \<Rightarrow> TFalse | TFalse \<Rightarrow> TTrue | TUnknown \<Rightarrow> TUnknown),
      perimeter = map (\<lambda>sc. \<lparr>saddleConnection = sc, vertical = (\<bar>sc\<bar> = 3 \<or> \<bar>sc\<bar> = 4)\<rparr>) per,
      circumferenceHolonomy = (0, 1), area = 1, width = 1\<rparr>"

definition torus2_vertical :: "tribool \<Rightarrow> tribool \<Rightarrow> rat Decomposition" where
  "torus2_vertical c1 c2 =
     \<lparr>D_u = (0, 1),
      D_decomposition =
        \<lparr>components = [torus2_component [1, 4, - 1, - 3] c1,
                       torus2_component [2, 3, - 2, - 4] c2],
         sc_chain = (\<lambda>sc e. if edge_index sc = e then he_sign sc else 0),
         sc_vector = fromEdge torus2\<rparr>\<rparr>"

section \<open>Properties\<close>

subsection \<open>Rank and linear independence\<close>

text \<open>The rank by elimination is full exactly when the rows are linearly independent,
  and rows of zeros after the others do not change it.\<close>

lemma pivot_index_Some: "pivot_index p = Some j \<Longrightarrow> j < length p \<and> p ! j \<noteq> 0"
  by (induction p arbitrary: j) (auto split: if_splits)

lemma pivot_index_None: "pivot_index p = None \<Longrightarrow> k < length p \<Longrightarrow> p ! k = 0"
  by (induction p arbitrary: k) (auto split: if_splits simp: nth_Cons')

lemma rank_le_length: "rank rows \<le> length rows"
proof (induction rows rule: rank.induct)
  case 1
  then show ?case by simp
next
  case (2 p rs)
  then show ?case by (cases "pivot_index p") (auto simp: le_SucI)
qed

lemma eliminate_nth:
  "length p = d \<Longrightarrow> length r = d \<Longrightarrow> k < d \<Longrightarrow>
   eliminate j p r ! k = r ! k - (r ! j / p ! j) * p ! k"
  by (simp add: eliminate_def)

lemma length_eliminate: "length p = d \<Longrightarrow> length r = d \<Longrightarrow> length (eliminate j p r) = d"
  by (simp add: eliminate_def)

lemma rank_full_indep:
  "\<forall>r\<in>set rows. length r = d \<Longrightarrow> rank rows = length rows \<Longrightarrow> lin_indep d rows"
proof (induction rows rule: rank.induct)
  case 1
  then show ?case by (simp add: lin_indep_def)
next
  case (2 p rs)
  show ?case
  proof (cases "pivot_index p")
    case None
    with "2.prems"(2) have "rank rs = Suc (length rs)" by simp
    with rank_le_length[of rs] show ?thesis by simp
  next
    case (Some j)
    let ?rs' = "map (eliminate j p) rs"
    from Some have j: "j < length p" "p ! j \<noteq> 0" using pivot_index_Some by blast+
    from "2.prems"(1) have lp: "length p = d" and lrs: "\<forall>r\<in>set rs. length r = d" by auto
    from "2.prems"(2) Some have "rank ?rs' = length ?rs'" by simp
    moreover have "\<forall>r\<in>set ?rs'. length r = d" using lp lrs by (auto simp: length_eliminate)
    ultimately have IH: "lin_indep d ?rs'" using "2.IH"(2)[OF Some] by blast
    show ?thesis unfolding lin_indep_def
    proof (intro allI impI)
      fix c i
      assume eq: "\<forall>k<d. (\<Sum>i<length (p # rs). c i * (p # rs) ! i ! k) = 0"
      assume i: "i < length (p # rs)"
      have split: "c 0 * p ! k + (\<Sum>i<length rs. c (Suc i) * rs ! i ! k) = 0" if "k < d" for k
      proof -
        have "(\<Sum>i<Suc (length rs). c i * (p # rs) ! i ! k)
            = c 0 * (p # rs) ! 0 ! k + (\<Sum>i<length rs. c (Suc i) * (p # rs) ! Suc i ! k)"
          by (rule sum.lessThan_Suc_shift)
        with eq that show ?thesis by simp
      qed
      define s where "s = (\<Sum>i<length rs. c (Suc i) * rs ! i ! j)"
      have sj: "c 0 * p ! j + s = 0" using split[of j] j lp by (simp add: s_def)
      have z: "(\<Sum>i<length ?rs'. c (Suc i) * ?rs' ! i ! k) = 0" if k: "k < d" for k
      proof -
        have "(\<Sum>i<length ?rs'. c (Suc i) * ?rs' ! i ! k)
            = (\<Sum>i<length rs. c (Suc i) * (rs ! i ! k - (rs ! i ! j / p ! j) * p ! k))"
          using lp lrs k by (intro sum.cong) (auto simp: eliminate_nth)
        also have "\<dots> = (\<Sum>i<length rs. c (Suc i) * rs ! i ! k) - (s / p ! j) * p ! k"
          by (simp add: s_def algebra_simps sum_subtractf sum_distrib_left sum_distrib_right sum_divide_distrib)
        also have "\<dots> = - (c 0 * p ! k) - (s / p ! j) * p ! k"
          using split[OF k] by (simp add: eq_neg_iff_add_eq_0 add.commute)
        also have "s = - (c 0 * p ! j)" using sj by (simp add: eq_neg_iff_add_eq_0 add.commute)
        finally show ?thesis using j by simp
      qed
      have "i < length ?rs' \<Longrightarrow> c (Suc i) = 0" for i
        using IH[unfolded lin_indep_def, rule_format, of "\<lambda>i. c (Suc i)" i] z by simp
      then have c': "\<forall>i<length rs. c (Suc i) = 0" by simp
      then have "s = 0" by (simp add: s_def)
      with sj j have "c 0 = 0" by simp
      with c' i show "c i = 0" by (cases i) auto
    qed
  qed
qed


lemma pivot_index_zero_vec: "pivot_index (zero_vec d :: 'a::zero list) = None"
  by (induction d) (auto simp: zero_vec_def)

lemma eliminate_zero_vec:
  "length p = d \<Longrightarrow> j < d \<Longrightarrow> eliminate j p (zero_vec d) = zero_vec d"
  by (auto simp: eliminate_def zero_vec_def intro!: nth_equalityI)

lemma rank_zero_rows: "\<forall>z\<in>set zs. z = zero_vec d \<Longrightarrow> rank zs = 0"
  by (induction zs) (auto simp: pivot_index_zero_vec)

lemma rank_append_zeros:
  "\<forall>r\<in>set rows. length r = d \<Longrightarrow> \<forall>z\<in>set zs. z = zero_vec d \<Longrightarrow>
   rank (rows @ zs) = rank rows"
proof (induction rows rule: rank.induct)
  case 1
  then show ?case by (simp add: rank_zero_rows)
next
  case (2 p rs)
  show ?case
  proof (cases "pivot_index p")
    case None
    with 2 show ?thesis by simp
  next
    case (Some j)
    from Some have j: "j < length p" using pivot_index_Some by blast
    from "2.prems"(1) have lp: "length p = d" and lrs: "\<forall>r\<in>set rs. length r = d" by auto
    have a: "\<forall>r\<in>set (map (eliminate j p) rs). length r = d"
      using lp lrs by (auto simp: length_eliminate)
    have b: "map (eliminate j p) zs = zs"
      using "2.prems"(2) lp j by (intro map_idI) (auto simp: eliminate_zero_vec)
    from "2.IH"(2)[OF Some a "2.prems"(2)] Some b show ?thesis by simp
  qed
qed

lemma indep_rank_full:
  "\<forall>r\<in>set rows. length r = d \<Longrightarrow> lin_indep d rows \<Longrightarrow> rank rows = length rows"
proof (induction rows rule: rank.induct)
  case 1
  then show ?case by simp
next
  case (2 p rs)
  from "2.prems"(1) have lp: "length p = d" and lrs: "\<forall>r\<in>set rs. length r = d" by auto
  note ind = "2.prems"(2)[unfolded lin_indep_def, rule_format]
  have shift: "(\<Sum>i<length (p # rs). c i * (p # rs) ! i ! k)
      = c 0 * p ! k + (\<Sum>i<length rs. c (Suc i) * rs ! i ! k)" for c :: "nat \<Rightarrow> 'a" and k
  proof -
    have "(\<Sum>i<Suc (length rs). c i * (p # rs) ! i ! k)
        = c 0 * (p # rs) ! 0 ! k + (\<Sum>i<length rs. c (Suc i) * (p # rs) ! Suc i ! k)"
      by (rule sum.lessThan_Suc_shift)
    then show ?thesis by simp
  qed
  show ?case
  proof (cases "pivot_index p")
    case None
    have "(\<Sum>i<length (p # rs). (if i = 0 then 1 else 0) * (p # rs) ! i ! k) = 0" if "k < d" for k
      unfolding shift using pivot_index_None[OF None, of k] that lp by simp
    from ind[of "\<lambda>i. if i = 0 then 1 else 0" 0, OF this] show ?thesis by simp
  next
    case (Some j)
    let ?rs' = "map (eliminate j p) rs"
    from Some have j: "j < length p" "p ! j \<noteq> 0" using pivot_index_Some by blast+
    have a: "\<forall>r\<in>set ?rs'. length r = d" using lp lrs by (auto simp: length_eliminate)
    have "lin_indep d ?rs'" unfolding lin_indep_def
    proof (intro allI impI)
      fix c' :: "nat \<Rightarrow> 'a" and i
      assume eq: "\<forall>k<d. (\<Sum>i<length ?rs'. c' i * ?rs' ! i ! k) = 0"
      assume i: "i < length ?rs'"
      define s where "s = (\<Sum>i<length rs. c' i * rs ! i ! j)"
      define c where "c = (\<lambda>i. case i of 0 \<Rightarrow> - (s / p ! j) | Suc n \<Rightarrow> c' n)"
      have "(\<Sum>i<length (p # rs). c i * (p # rs) ! i ! k) = 0" if k: "k < d" for k
      proof -
        have "(\<Sum>i<length ?rs'. c' i * ?rs' ! i ! k)
            = (\<Sum>i<length rs. c' i * (rs ! i ! k - (rs ! i ! j / p ! j) * p ! k))"
          using lp lrs k by (intro sum.cong) (auto simp: eliminate_nth)
        also have "\<dots> = (\<Sum>i<length rs. c' i * rs ! i ! k) - (s / p ! j) * p ! k"
          by (simp add: s_def algebra_simps sum_subtractf sum_distrib_left sum_distrib_right sum_divide_distrib)
        finally have "(\<Sum>i<length rs. c' i * rs ! i ! k) - (s / p ! j) * p ! k = 0"
          using eq k by simp
        then show ?thesis unfolding shift by (simp add: c_def)
      qed
      from ind[of c "Suc i", OF this] i show "c' i = 0" by (simp add: c_def)
    qed
    from "2.IH"(2)[OF Some a this] Some show ?thesis by simp
  qed
qed

lemma rank_full_iff:
  "\<forall>r\<in>set rows. length r = d \<Longrightarrow> rank rows = length rows \<longleftrightarrow> lin_indep d rows"
  using rank_full_indep indep_rank_full by blast

lemma span_dependent:
  assumes "in_span d rows v"
  shows "\<not> lin_indep d (rows @ [v])"
proof
  assume ind: "lin_indep d (rows @ [v])"
  from assms obtain c where c: "\<forall>k<d. v ! k = (\<Sum>i<length rows. c i * rows ! i ! k)"
    unfolding in_span_def by blast
  define c' where "c' = (\<lambda>i. if i < length rows then c i else - 1)"
  have "(\<Sum>i<length (rows @ [v]). c' i * (rows @ [v]) ! i ! k) = 0" if "k < d" for k
  proof -
    have "(\<Sum>i<length rows. c' i * (rows @ [v]) ! i ! k) = (\<Sum>i<length rows. c i * rows ! i ! k)"
      by (intro sum.cong) (auto simp: c'_def nth_append)
    then show ?thesis using c that by (simp add: c'_def)
  qed
  from ind[unfolded lin_indep_def, rule_format, of c' "length rows", OF this]
  show False by (simp add: c'_def)
qed

subsection \<open>The accumulator\<close>

lemma rank_candidate:
  assumes len: "list_all (\<lambda>r. length r = d) A" and i: "i < length A" and v: "length v = d"
    and z: "list_all (\<lambda>r. r = zero_vec d) (drop (Suc i) A)"
  shows "rank (A[i := v]) = rank (take i A @ [v])"
proof -
  have "A[i := v] = (take i A @ [v]) @ drop (Suc i) A" using i by (simp add: upd_conv_take_nth_drop)
  moreover have "\<forall>r\<in>set (take i A @ [v]). length r = d"
    using len v by (auto simp: list_all_iff dest: in_set_takeD)
  moreover have "\<forall>r\<in>set (drop (Suc i) A). r = zero_vec d" using z by (simp add: list_all_iff)
  ultimately show ?thesis using rank_append_zeros by metis
qed

lemma insert_step:
  assumes inv: "acc_inv d A i" and i: "i < length A" and v: "length v = d"
  shows "rank (A[i := v]) \<le> Suc i"
    and "rank (A[i := v]) > i \<Longrightarrow> acc_inv d (A[i := v]) (Suc i)"
    and "\<not> rank (A[i := v]) > i \<Longrightarrow> acc_inv d (A[i := v]) i"
proof -
  let ?A = "A[i := v]"
  from inv have len: "list_all (\<lambda>r. length r = d) A"
    and ind: "lin_indep d (take i A)" and z: "list_all (\<lambda>r. r = zero_vec d) (drop (Suc i) A)"
    by (auto simp: acc_inv_def)
  have r: "rank ?A = rank (take i A @ [v])" by (rule rank_candidate[OF len i v z])
  show rle: "rank ?A \<le> Suc i" using rank_le_length[of "take i A @ [v]"] i r by simp
  have len': "list_all (\<lambda>r. length r = d) ?A"
    using len v by (auto simp: list_all_iff dest: set_update_subset_insert[THEN subsetD])
  show "acc_inv d ?A i" if "\<not> rank ?A > i"
    using len' i ind z by (simp add: acc_inv_def)
  show "acc_inv d ?A (Suc i)" if "rank ?A > i"
  proof -
    from that rle have req: "rank ?A = Suc i" by simp
    have "\<forall>r\<in>set (take i A @ [v]). length r = d"
      using len v by (auto simp: list_all_iff dest: in_set_takeD)
    moreover have "rank (take i A @ [v]) = length (take i A @ [v])" using req r i by simp
    ultimately have "lin_indep d (take i A @ [v])" by (rule rank_full_indep)
    moreover have "take (Suc i) ?A = take i A @ [v]" using i by (simp add: take_Suc_conv_app_nth)
    ultimately have ind': "lin_indep d (take (Suc i) ?A)" by simp
    have z': "list_all (\<lambda>r. r = zero_vec d) (drop (Suc (Suc i)) ?A)"
      using z set_drop_subset_set_drop[of "Suc i" "Suc (Suc i)" A] by (auto simp: list_all_iff)
    show ?thesis using len' i ind' z' by (simp add: acc_inv_def)
  qed
qed

lemma insert_vectors_inv:
  assumes "acc_inv d A i" and "i < length A" and "insert_vectors d A i vs = Inr (A', i')"
  shows "acc_inv d A' i' \<and> i \<le> i' \<and> i' \<le> i + length vs \<and> length A' = length A
           \<and> take i A' = take i A"
  using assms
proof (induction vs arbitrary: A i)
  case Nil
  then show ?case by simp
next
  case (Cons v vs)
  let ?A = "A[i := v]"
  note i = Cons.prems(2)
  from Cons.prems(3) i have v: "length v = d" by (auto split: if_splits)
  note st = insert_step[OF Cons.prems(1) i v]
  show ?case
  proof (cases "rank ?A > i")
    case False
    with Cons.prems(3) i v have "insert_vectors d ?A i vs = Inr (A', i')" by (simp add: Let_def)
    from Cons.IH[OF st(3)[OF False] _ this] i show ?thesis by simp
  next
    case True
    with st(1) have req: "rank ?A = Suc i" by simp
    show ?thesis
    proof (cases "Suc i = length A")
      case True
      with req i v Cons.prems(3) have "A' = ?A" "i' = Suc i" by (auto simp: Let_def)
      with st(2) req show ?thesis by simp
    next
      case False
      with req i v Cons.prems(3) have *: "insert_vectors d ?A (Suc i) vs = Inr (A', i')"
        by (auto simp: Let_def)
      from False i have "Suc i < length ?A" by simp
      from Cons.IH[OF st(2) this *] req have
        **: "acc_inv d A' i'" "Suc i \<le> i'" "i' \<le> Suc i + length vs" "length A' = length ?A"
           "take (Suc i) A' = take (Suc i) ?A" by auto
      from **(5) have "take i (take (Suc i) A') = take i (take (Suc i) ?A)" by simp
      then have "take i A' = take i A" by (simp add: min_def)
      with ** show ?thesis by simp
    qed
  qed
qed

lemma insert_vectors_returns:
  assumes "acc_inv d A i" and "i < length A" and "list_all (\<lambda>v. length v = d) vs"
  shows "\<exists>r. insert_vectors d A i vs = Inr r"
  using assms
proof (induction vs arbitrary: A i)
  case Nil
  then show ?case by simp
next
  case (Cons v vs)
  let ?A = "A[i := v]"
  note i = Cons.prems(2)
  from Cons.prems(3) have v: "length v = d" and vs: "list_all (\<lambda>v. length v = d) vs" by auto
  note st = insert_step[OF Cons.prems(1) i v]
  show ?case
  proof (cases "rank ?A > i")
    case False
    from Cons.IH[OF st(3)[OF False] _ vs] i False v show ?thesis by (auto simp: Let_def)
  next
    case True
    with st(1) have req: "rank ?A = Suc i" by simp
    show ?thesis
    proof (cases "Suc i = length A")
      case True
      with req i v show ?thesis by (auto simp: Let_def)
    next
      case False
      with i have "Suc i < length ?A" by simp
      from Cons.IH[OF st(2) this vs] req False i v show ?thesis by (auto simp: Let_def)
    qed
  qed
qed

lemma insert_vectors_span:
  assumes "list_all (\<lambda>r. length r = d) A" and "i < length A"
    and "list_all (\<lambda>r. r = zero_vec d) (drop (Suc i) A)"
    and "list_all (\<lambda>v. length v = d \<and> in_span d (take i A) v) vs"
  shows "\<exists>A'. insert_vectors d A i vs = Inr (A', i) \<and> take i A' = take i A
           \<and> length A' = length A"
  using assms
proof (induction vs arbitrary: A)
  case Nil
  then show ?case by simp
next
  case (Cons v vs)
  let ?A = "A[i := v]"
  note len = Cons.prems(1) and i = Cons.prems(2) and z = Cons.prems(3)
  from Cons.prems(4) have v: "length v = d" and sp: "in_span d (take i A) v"
    and vs: "list_all (\<lambda>v. length v = d \<and> in_span d (take i A) v) vs" by auto
  have r: "rank ?A = rank (take i A @ [v])" by (rule rank_candidate[OF len i v z])
  have ls: "\<forall>r\<in>set (take i A @ [v]). length r = d"
    using len v by (auto simp: list_all_iff dest: in_set_takeD)
  have "rank (take i A @ [v]) \<noteq> length (take i A @ [v])"
    using rank_full_indep[OF ls] span_dependent[OF sp] by blast
  with rank_le_length[of "take i A @ [v]"] i r have nr: "\<not> rank ?A > i" by simp
  have len': "list_all (\<lambda>r. length r = d) ?A"
    using len v by (auto simp: list_all_iff dest: set_update_subset_insert[THEN subsetD])
  have "\<exists>A'. insert_vectors d ?A i vs = Inr (A', i) \<and> take i A' = take i ?A
           \<and> length A' = length ?A"
    by (rule Cons.IH) (use len' i z vs in simp_all)
  with nr i v show ?case by (auto simp: Let_def)
qed

lemma update_inv:
  assumes "orbit_inv orb" and "update_tangent_space_from_flow_decomposition orb D = Inr orb'"
  shows "orbit_inv orb' \<and> O_U_rank orb \<le> O_U_rank orb' \<and> length (O_U orb') = length (O_U orb)
         \<and> O_d orb' = O_d orb
         \<and> take (O_U_rank orb) (O_U orb') = take (O_U_rank orb) (O_U orb)"
proof (cases "O_U_rank orb = length (O_U orb)")
  case True
  with assms show ?thesis by (simp add: update_tangent_space_from_flow_decomposition_def)
next
  case False
  with assms(1) have i: "O_U_rank orb < length (O_U orb)" by (simp add: orbit_inv_def acc_inv_def)
  from assms(2) False obtain vs A i' where
    "insert_vectors (O_d orb) (O_U orb) (O_U_rank orb) vs = Inr (A, i')"
    and orb': "orb' = orb\<lparr>O_U := A, O_U_rank := i'\<rparr>"
    by (auto simp: update_tangent_space_from_flow_decomposition_def split: sum.splits)
  from assms(1) have ai: "acc_inv (O_d orb) (O_U orb) (O_U_rank orb)"
    and ln: "length (O_U orb) = O_d orb" by (simp_all add: orbit_inv_def)
  from insert_vectors_inv[OF ai i \<open>insert_vectors (O_d orb) (O_U orb) (O_U_rank orb) vs = Inr (A, i')\<close>]
    orb' ln
  show ?thesis by (simp add: orbit_inv_def)
qed

lemma update_all_inv:
  assumes "orbit_inv orb" and "update_all orb Ds = Inr orb'"
  shows "orbit_inv orb' \<and> O_U_rank orb \<le> O_U_rank orb' \<and> length (O_U orb') = length (O_U orb)
         \<and> O_d orb' = O_d orb
         \<and> take (O_U_rank orb) (O_U orb') = take (O_U_rank orb) (O_U orb)"
  using assms
proof (induction Ds arbitrary: orb)
  case Nil
  then show ?case by simp
next
  case (Cons D Ds)
  from Cons.prems(2) obtain orb1 where
    1: "update_tangent_space_from_flow_decomposition orb D = Inr orb1"
    and 2: "update_all orb1 Ds = Inr orb'" by (auto split: sum.splits)
  note a = update_inv[OF Cons.prems(1) 1]
  from a have inv1: "orbit_inv orb1" by simp
  note b = Cons.IH[OF inv1 2]
  from b have "take (O_U_rank orb) (take (O_U_rank orb1) (O_U orb'))
      = take (O_U_rank orb) (take (O_U_rank orb1) (O_U orb1))" by simp
  with a have "take (O_U_rank orb) (O_U orb') = take (O_U_rank orb) (O_U orb)"
    by (simp add: min_def)
  with a b show ?case by simp
qed

lemma update_all_full:
  assumes "O_U_rank orb = length (O_U orb)"
  shows "update_all orb Ds = Inr orb"
  using assms by (induction Ds) (simp_all add: update_tangent_space_from_flow_decomposition_def)

subsection \<open>The example, evaluated\<close>

lemma torus2_projection:
  "projection torus2
     = Some (Inr ([(1, None), (- 1, Some (- 1)), (- 2, Some (- 4)), (2, Some 2)],
                  [2, 4, 5],
                  [[- 1, - 1, 1, 1, 0, 0], [1, 0, 0, 0, 1, 0], [0, 1, 0, 0, 0, 1]]))"
  by code_simp

lemma torus2_intersection_matrix:
  "intersection_matrix torus2 [2, 4, 5] = Some (Inr [[0, 1, 1], [- 1, 0, 0], [- 1, 0, 0]])"
  by code_simp

lemma torus2_constructed: "GL2ROrbitClosure torus2 = Some (Inr torus2_orbit)"
  unfolding GL2ROrbitClosure_def torus2_projection
  apply (simp only: prod.case sum.case option.case torus2_intersection_matrix)
  by (simp add: torus2_orbit_def Let_def positive_def Hdual_of_def dot_def zero_matrix_def
        zero_vec_def torus2_def numeral_2_eq_2 numeral_3_eq_3)

lemma torus2_fields:
  "O_U torus2_orbit = [[0, 1, 1], [1, 1, 1], [0, 0, 0]]" "O_U_rank torus2_orbit = 2"
  "O_d torus2_orbit = 3"
  by (simp_all add: torus2_orbit_def)

lemma torus2_cylinders:
  "cylinder_deformation_subspace torus2_orbit (torus2_vertical TTrue TTrue) = Inr [[0, - 1, - 1]]"
  by code_simp

lemma torus2_cylinder_minimal:
  "cylinder_deformation_subspace torus2_orbit (torus2_vertical TTrue TFalse) = Inr [[0, - 1, 0]]"
  by code_simp

lemma torus2_insert_dependent:
  "insert_vectors 3 [[0, 1, 1], [1, 1, 1], [0, 0, 0]] 2 [[0, - 1, - 1 :: rat]]
     = Inr ([[0, 1, 1], [1, 1, 1], [0, - 1, - 1]], 2)"
  by code_simp

lemma torus2_insert_independent:
  "insert_vectors 3 [[0, 1, 1], [1, 1, 1], [0, - 1, - 1]] 2 [[0, - 1, 0 :: rat]]
     = Inr ([[0, 1, 1], [1, 1, 1], [0, - 1, 0]], 3)"
  by code_simp

lemma torus2_update_1:
  "update_tangent_space_from_flow_decomposition torus2_orbit (torus2_vertical TTrue TTrue)
     = Inr (torus2_orbit\<lparr>O_U := [[0, 1, 1], [1, 1, 1], [0, - 1, - 1]], O_U_rank := 2\<rparr>)"
proof -
  have "update_tangent_space_from_flow_decomposition torus2_orbit (torus2_vertical TTrue TTrue)
      = (case insert_vectors 3 [[0, 1, 1], [1, 1, 1], [0, 0, 0]] 2 [[0, - 1, - 1 :: rat]] of
           Inl e \<Rightarrow> Inl e
         | Inr (A, i) \<Rightarrow> Inr (torus2_orbit\<lparr>O_U := A, O_U_rank := i\<rparr>))"
    by (simp add: update_tangent_space_from_flow_decomposition_def torus2_cylinders torus2_fields
          del: insert_vectors.simps)
  then show ?thesis unfolding torus2_insert_dependent by simp
qed

lemma torus2_orbit_inv: "orbit_inv torus2_orbit"
proof -
  have l: "\<forall>r\<in>set [[0, 1, 1], [1, 1, 1::rat]]. length r = 3" by simp
  have r: "rank [[0, 1, 1], [1, 1, 1::rat]] = 2" by code_simp
  have "rank [[0, 1, 1], [1, 1, 1::rat]] = length [[0, 1, 1], [1, 1, 1::rat]]"
    unfolding r by simp
  from rank_full_indep[OF l this] show ?thesis
    by (simp add: orbit_inv_def acc_inv_def torus2_orbit_def zero_vec_def numeral_3_eq_3)
qed

subsection \<open>The tracked rank\<close>

lemma insert_single:
  "insert_vectors d A i [v] = Inr (A', i') \<Longrightarrow> i \<le> i' \<and> i' \<le> Suc i"
  by (auto simp: Let_def split: if_splits)

text \<open>
  Claim C4. Start from an accumulator in the state the constructor sets up
  (\<open>orbit_inv\<close>) and run \<^verbatim>\<open>update_tangent_space_from_flow_decomposition\<close> on any list of
  decompositions; when the calls return, the tracked rank has not decreased, it is at
  most the number of rows of \<open>U\<close>, which is still \<open>d\<close>, the rows before it are linearly
  independent, the rows committed at the start are unchanged, the state is again one
  the constructor could have set up, and when the rank was the number of rows from the
  start nothing has changed. The insertion of a single candidate raises the rank by at
  most one.
\<close>

theorem tangent_space_rank_invariant:
  assumes "orbit_inv orb" and "update_all orb Ds = Inr orb'"
  shows "dimension orb \<le> dimension orb' \<and> dimension orb' \<le> length (O_U orb')
         \<and> length (O_U orb') = length (O_U orb) \<and> length (O_U orb') = O_d orb'
         \<and> lin_indep (O_d orb') (take (dimension orb') (O_U orb'))
         \<and> take (dimension orb) (O_U orb') = take (dimension orb) (O_U orb)
         \<and> orbit_inv orb'
         \<and> (dimension orb = length (O_U orb) \<longrightarrow> orb' = orb)
         \<and> (\<forall>A i v A' i'. insert_vectors (O_d orb) A i [v] = Inr (A', i') \<longrightarrow> i \<le> i' \<and> i' \<le> Suc i)"
proof -
  note a = update_all_inv[OF assms]
  from a have "orbit_inv orb'" by simp
  then have b: "dimension orb' \<le> length (O_U orb')" "length (O_U orb') = O_d orb'"
    "lin_indep (O_d orb') (take (dimension orb') (O_U orb'))"
    by (simp_all add: orbit_inv_def acc_inv_def dimension_def)
  have c: "dimension orb = length (O_U orb) \<longrightarrow> orb' = orb"
    using update_all_full[of orb Ds] assms(2) by (auto simp: dimension_def)
  from a b c insert_single show ?thesis unfolding dimension_def by blast
qed

lemma torus2_update_all:
  "update_all torus2_orbit [torus2_vertical TTrue TTrue, torus2_vertical TTrue TFalse]
     = Inr (torus2_orbit\<lparr>O_U := [[0, 1, 1], [1, 1, 1], [0, - 1, 0]], O_U_rank := 3\<rparr>)"
proof -
  let ?orb1 = "torus2_orbit\<lparr>O_U := [[0, 1, 1], [1, 1, 1], [0, - 1, - 1]], O_U_rank := 2\<rparr>"
  have cds: "cylinder_deformation_subspace ?orb1 (torus2_vertical TTrue TFalse) = Inr [[0, - 1, 0]]"
    by code_simp
  have "update_tangent_space_from_flow_decomposition ?orb1 (torus2_vertical TTrue TFalse)
      = (case insert_vectors 3 [[0, 1, 1], [1, 1, 1], [0, - 1, - 1]] 2 [[0, - 1, 0 :: rat]] of
           Inl e \<Rightarrow> Inl e
         | Inr (A, i) \<Rightarrow> Inr (?orb1\<lparr>O_U := A, O_U_rank := i\<rparr>))"
    by (simp add: update_tangent_space_from_flow_decomposition_def cds torus2_fields
          del: insert_vectors.simps)
  then have "update_tangent_space_from_flow_decomposition ?orb1 (torus2_vertical TTrue TFalse)
      = Inr (torus2_orbit\<lparr>O_U := [[0, 1, 1], [1, 1, 1], [0, - 1, 0]], O_U_rank := 3\<rparr>)"
    unfolding torus2_insert_independent by simp
  then show ?thesis by (simp add: torus2_update_1)
qed

theorem tangent_space_rank_invariant_witness:
  "orbit_inv torus2_orbit
   \<and> update_all torus2_orbit [torus2_vertical TTrue TTrue, torus2_vertical TTrue TFalse]
       = Inr (torus2_orbit\<lparr>O_U := [[0, 1, 1], [1, 1, 1], [0, - 1, 0]], O_U_rank := 3\<rparr>)
   \<and> dimension torus2_orbit = 2
   \<and> dimension (torus2_orbit\<lparr>O_U := [[0, 1, 1], [1, 1, 1], [0, - 1, 0]], O_U_rank := 3\<rparr>) = 3
   \<and> lin_indep 3 [[0, 1, 1], [1, 1, 1], [0, - 1, 0 :: rat]]
   \<and> orbit_inv (torus2_orbit\<lparr>O_U := [[0, 1, 1], [1, 1, 1], [0, - 1, 0]], O_U_rank := 3\<rparr>)"
proof -
  let ?orb' = "torus2_orbit\<lparr>O_U := [[0, 1, 1], [1, 1, 1], [0, - 1, 0]], O_U_rank := 3\<rparr>"
  note t = tangent_space_rank_invariant[OF torus2_orbit_inv torus2_update_all]
  have d: "dimension torus2_orbit = 2" "dimension ?orb' = 3" "O_d ?orb' = 3"
    "O_U ?orb' = [[0, 1, 1], [1, 1, 1], [0, - 1, 0]]"
    by (simp_all add: dimension_def torus2_orbit_def)
  from t have "lin_indep (O_d ?orb') (take (dimension ?orb') (O_U ?orb'))" by (elim conjE)
  then have "lin_indep 3 [[0, 1, 1], [1, 1, 1], [0, - 1, 0 :: rat]]" unfolding d by simp
  moreover from t have "orbit_inv ?orb'" by (elim conjE)
  ultimately show ?thesis using torus2_orbit_inv torus2_update_all d(1,2) by blast
qed

subsection \<open>Candidates in the span of the committed rows\<close>

text \<open>
  Claim C8. When every candidate vector that \<^verbatim>\<open>cylinder_deformation_subspace\<close> returns
  is in the linear span of the committed rows of \<open>U\<close> (the rows before the tracked
  rank), \<^verbatim>\<open>update_tangent_space_from_flow_decomposition\<close> returns, the tracked rank is
  unchanged and the committed rows are unchanged.
\<close>

theorem insertion_idempotent:
  assumes "orbit_inv orb"
    and "cylinder_deformation_subspace orb D = Inr vs"
    and "list_all (in_span (O_d orb) (take (dimension orb) (O_U orb))) vs"
  shows "\<exists>orb'. update_tangent_space_from_flow_decomposition orb D = Inr orb'
           \<and> dimension orb' = dimension orb
           \<and> take (dimension orb) (O_U orb') = take (dimension orb) (O_U orb)"
proof (cases "O_U_rank orb = length (O_U orb)")
  case True
  then show ?thesis by (simp add: update_tangent_space_from_flow_decomposition_def)
next
  case False
  from assms(1) have len: "list_all (\<lambda>r. length r = O_d orb) (O_U orb)"
    and z: "list_all (\<lambda>r. r = zero_vec (O_d orb)) (drop (Suc (O_U_rank orb)) (O_U orb))"
    and "O_U_rank orb \<le> length (O_U orb)"
    by (simp_all add: orbit_inv_def acc_inv_def)
  with False have i: "O_U_rank orb < length (O_U orb)" by simp
  from assms(3) have vs: "list_all (\<lambda>v. length v = O_d orb
      \<and> in_span (O_d orb) (take (O_U_rank orb) (O_U orb)) v) vs"
    by (auto simp: list_all_iff dimension_def in_span_def)
  from insert_vectors_span[OF len i z vs] obtain A' where
    "insert_vectors (O_d orb) (O_U orb) (O_U_rank orb) vs = Inr (A', O_U_rank orb)"
    "take (O_U_rank orb) A' = take (O_U_rank orb) (O_U orb)" by blast
  with False assms(2) show ?thesis
    by (simp add: update_tangent_space_from_flow_decomposition_def dimension_def)
qed

theorem insertion_idempotent_witness:
  "orbit_inv torus2_orbit
   \<and> cylinder_deformation_subspace torus2_orbit (torus2_vertical TTrue TTrue) = Inr [[0, - 1, - 1]]
   \<and> in_span 3 [[0, 1, 1], [1, 1, 1]] [0, - 1, - 1 :: rat]
   \<and> update_tangent_space_from_flow_decomposition torus2_orbit (torus2_vertical TTrue TTrue)
       = Inr (torus2_orbit\<lparr>O_U := [[0, 1, 1], [1, 1, 1], [0, - 1, - 1]], O_U_rank := 2\<rparr>)
   \<and> dimension (torus2_orbit\<lparr>O_U := [[0, 1, 1], [1, 1, 1], [0, - 1, - 1]], O_U_rank := 2\<rparr>)
       = dimension torus2_orbit"
proof -
  have sp: "in_span 3 [[0, 1, 1], [1, 1, 1]] [0, - 1, - 1 :: rat]"
    unfolding in_span_def
  proof (intro conjI exI[of _ "\<lambda>i. if i = 0 then - 1 else 0"] allI impI)
    fix k :: nat assume "k < 3"
    then consider "k = 0" | "k = 1" | "k = 2" by linarith
    then show "[0, - 1, - 1 :: rat] ! k
        = (\<Sum>i<length [[0, 1, 1], [1, 1, 1 :: rat]]. (if i = 0 then - 1 else 0) * [[0, 1, 1], [1, 1, 1]] ! i ! k)"
      by cases (simp_all add: lessThan_Suc numeral_2_eq_2)
  qed simp
  have f: "O_d torus2_orbit = 3"
    "take (dimension torus2_orbit) (O_U torus2_orbit) = [[0, 1, 1], [1, 1, 1]]"
    by (simp_all add: torus2_orbit_def dimension_def numeral_2_eq_2)
  have "list_all (in_span (O_d torus2_orbit) (take (dimension torus2_orbit) (O_U torus2_orbit)))
          [[0, - 1, - 1]]"
    unfolding f using sp by simp
  from insertion_idempotent[OF torus2_orbit_inv torus2_cylinders this]
  obtain orb' where "update_tangent_space_from_flow_decomposition torus2_orbit (torus2_vertical TTrue TTrue) = Inr orb'"
    "dimension orb' = dimension torus2_orbit" by blast
  with torus2_update_1 have "dimension (torus2_orbit\<lparr>O_U := [[0, 1, 1], [1, 1, 1], [0, - 1, - 1]], O_U_rank := 2\<rparr>)
       = dimension torus2_orbit" by simp
  with sp torus2_orbit_inv torus2_cylinders torus2_update_1 show ?thesis by blast
qed

subsection \<open>Minimal and undetermined components\<close>

lemma cds_collect_skips_minimal:
  "cds_collect orb D vcyls modules cs
     = cds_collect orb D vcyls modules (filter (\<lambda>c. cylinder c \<noteq> TFalse) cs)"
  by (induction cs arbitrary: vcyls modules) (auto split: sum.splits simp: Let_def)

lemma cds_collect_None:
  "cds_collect orb D vcyls modules cs = Inr None \<Longrightarrow> \<exists>c\<in>set cs. cylinder c = TUnknown"
proof (induction cs arbitrary: vcyls modules)
  case Nil
  then show ?case by simp
next
  case (Cons c cs)
  then show ?case
    by (cases "cylinder c") (auto split: sum.splits if_splits simp: Let_def)
qed

lemma cds_collect_unknown:
  assumes "\<exists>c\<in>set cs. cylinder c = TUnknown"
    and "list_all (cylinder_ok orb D) (takeWhile (\<lambda>c. cylinder c \<noteq> TUnknown) cs)"
  shows "cds_collect orb D vcyls modules cs = Inr None"
  using assms
proof (induction cs arbitrary: vcyls modules)
  case Nil
  then show ?case by simp
next
  case (Cons c cs)
  show ?case
  proof (cases "cylinder c")
    case TUnknown
    then show ?thesis by simp
  next
    case TFalse
    with Cons show ?thesis by simp
  next
    case TTrue
    with Cons.prems(2) obtain r where r: "circumference_width orb D c = Inr r"
      and h: "(fst (circumferenceHolonomy c))\<^sup>2 + (snd (circumferenceHolonomy c))\<^sup>2 \<noteq> 0"
      by (auto simp: cylinder_ok_def split: sum.splits)
    from TTrue Cons.prems have "\<exists>c\<in>set cs. cylinder c = TUnknown"
      "list_all (cylinder_ok orb D) (takeWhile (\<lambda>c. cylinder c \<noteq> TUnknown) cs)" by auto
    from Cons.IH[OF this] TTrue r h show ?thesis by (cases r) (simp add: Let_def)
  qed
qed

text \<open>
  Claim C1, amended. A component that is certainly minimal (\<^verbatim>\<open>cylinder()\<close> is false) is
  skipped: \<^verbatim>\<open>cylinder_deformation_subspace\<close> returns what its loop gives on the other
  components alone. Over \<open>ZZ\<close> or \<open>QQ\<close>, when no component is undetermined and the method
  returns, it returns exactly one vector, with or without minimal components.
\<close>

theorem minimal_components_skipped:
  "cylinder_deformation_subspace orb D
     = (case kontsevich_zorich_cocycle orb D of
          Inl e \<Rightarrow> Inl e
        | Inr r \<Rightarrow>
            (case cds_collect orb D [] []
                    (filter (\<lambda>c. cylinder c \<noteq> TFalse) (components (D_decomposition D))) of
               Inl e \<Rightarrow> Inl e
             | Inr None \<Rightarrow> Inr []
             | Inr (Some (vcyls, modules)) \<Rightarrow> cds_vectors orb vcyls modules))
   \<and> ((O_base_ring orb = Ring_ZZ \<or> O_base_ring orb = Ring_QQ)
        \<and> (\<forall>c\<in>set (components (D_decomposition D)). cylinder c \<noteq> TUnknown)
        \<and> cylinder_deformation_subspace orb D = Inr vs
       \<longrightarrow> length vs = 1)"
proof (intro conjI impI)
  show "cylinder_deformation_subspace orb D
     = (case kontsevich_zorich_cocycle orb D of
          Inl e \<Rightarrow> Inl e
        | Inr r \<Rightarrow>
            (case cds_collect orb D [] []
                    (filter (\<lambda>c. cylinder c \<noteq> TFalse) (components (D_decomposition D))) of
               Inl e \<Rightarrow> Inl e
             | Inr None \<Rightarrow> Inr []
             | Inr (Some (vcyls, modules)) \<Rightarrow> cds_vectors orb vcyls modules))"
    unfolding cylinder_deformation_subspace_def
    by (subst cds_collect_skips_minimal) (rule refl)
next
  assume a: "(O_base_ring orb = Ring_ZZ \<or> O_base_ring orb = Ring_QQ)
        \<and> (\<forall>c\<in>set (components (D_decomposition D)). cylinder c \<noteq> TUnknown)
        \<and> cylinder_deformation_subspace orb D = Inr vs"
  then have nn: "cds_collect orb D [] [] (components (D_decomposition D)) \<noteq> Inr None"
    using cds_collect_None by blast
  from a nn show "length vs = 1"
    by (auto simp: cylinder_deformation_subspace_def cds_vectors_def split: sum.splits option.splits)
qed

theorem minimal_components_skipped_witness:
  "O_base_ring torus2_orbit = Ring_QQ
   \<and> cylinder (components (D_decomposition (torus2_vertical TTrue TTrue)) ! 0) = TTrue
   \<and> cylinder (components (D_decomposition (torus2_vertical TTrue TTrue)) ! 1) = TTrue
   \<and> cylinder_deformation_subspace torus2_orbit (torus2_vertical TTrue TTrue) = Inr [[0, - 1, - 1]]
   \<and> length [[0, - 1, - 1 :: rat]] = 1"
proof -
  have b: "O_base_ring torus2_orbit = Ring_QQ" by (simp add: torus2_orbit_def)
  have c: "\<forall>c\<in>set (components (D_decomposition (torus2_vertical TTrue TTrue))). cylinder c \<noteq> TUnknown"
    by (simp add: torus2_vertical_def torus2_component_def)
  from minimal_components_skipped[of torus2_orbit "torus2_vertical TTrue TTrue" "[[0, - 1, - 1]]"]
    b c torus2_cylinders
  have l: "length [[0, - 1, - 1 :: rat]] = 1" by blast
  have cy: "cylinder (components (D_decomposition (torus2_vertical TTrue TTrue)) ! 0) = TTrue"
    "cylinder (components (D_decomposition (torus2_vertical TTrue TTrue)) ! 1) = TTrue"
    by (simp_all add: torus2_vertical_def torus2_component_def)
  from b cy torus2_cylinders l show ?thesis by blast
qed

text \<open>
  Claim C1 as stated fails: the second component of this decomposition is certainly
  minimal, the first is a cylinder, and the result is the deformation vector of the
  cylinder, not the empty list.
\<close>

theorem minimal_component_counterexample:
  "cylinder (components (D_decomposition (torus2_vertical TTrue TFalse)) ! 1) = TFalse
   \<and> withoutPeriodicTrajectory (components (D_decomposition (torus2_vertical TTrue TFalse)) ! 1) = TTrue
   \<and> cylinder_deformation_subspace torus2_orbit (torus2_vertical TTrue TFalse) = Inr [[0, - 1, 0]]
   \<and> cylinder_deformation_subspace torus2_orbit (torus2_vertical TTrue TFalse) \<noteq> Inr []"
proof -
  have cy: "cylinder (components (D_decomposition (torus2_vertical TTrue TFalse)) ! 1) = TFalse"
    "withoutPeriodicTrajectory (components (D_decomposition (torus2_vertical TTrue TFalse)) ! 1) = TTrue"
    by (simp_all add: torus2_vertical_def torus2_component_def)
  have "cylinder_deformation_subspace torus2_orbit (torus2_vertical TTrue TFalse) \<noteq> Inr []"
    unfolding torus2_cylinder_minimal by simp
  with cy torus2_cylinder_minimal show ?thesis by blast
qed

text \<open>
  Claim C3. Take a decomposition with a component that is undetermined (\<^verbatim>\<open>cylinder()\<close>
  is neither true nor false) on which the internal checks pass:
  \<^verbatim>\<open>kontsevich_zorich_cocycle\<close> returns, and so does \<^verbatim>\<open>circumference_width\<close> on each
  cylinder before the first undetermined component. Then
  \<^verbatim>\<open>cylinder_deformation_subspace\<close> returns the empty list, no exception is raised,
  \<^verbatim>\<open>update_tangent_space_from_flow_decomposition\<close> returns with the orbit closure object
  unchanged, and a run of calls goes on with the next decompositions as if this one
  had not been there.
\<close>

theorem undetermined_component_empty:
  assumes "kontsevich_zorich_cocycle orb D = Inr r"
    and "\<exists>c\<in>set (components (D_decomposition D)). cylinder c = TUnknown"
    and "list_all (cylinder_ok orb D)
           (takeWhile (\<lambda>c. cylinder c \<noteq> TUnknown) (components (D_decomposition D)))"
  shows "cylinder_deformation_subspace orb D = Inr []
         \<and> update_tangent_space_from_flow_decomposition orb D = Inr orb
         \<and> update_all orb (D # Ds) = update_all orb Ds"
proof -
  have 1: "cylinder_deformation_subspace orb D = Inr []"
    unfolding cylinder_deformation_subspace_def
    using assms(1) cds_collect_unknown[OF assms(2,3)] by simp
  have 2: "update_tangent_space_from_flow_decomposition orb D = Inr orb"
    by (simp add: update_tangent_space_from_flow_decomposition_def 1)
  from 1 2 show ?thesis by simp
qed

lemma torus2_kz:
  "kontsevich_zorich_cocycle torus2_orbit (torus2_vertical TTrue TUnknown)
     = Inr ([[- 1, 1, 0], [- 1, 0, 0], [- 1, 0, 1]],
            [(1, 0), (- 1, - 1), (4, 1), (- 4, - 2), (- 3, 2), (3, - 3), (2, 3), (- 2, - 4)],
            [[1, 0, 0, 0], [0, 0, 1, 0], [0, - 1, 0, 1]])"
  by code_simp

lemma torus2_circumference_width:
  "circumference_width torus2_orbit (torus2_vertical TTrue TUnknown)
     (torus2_component [1, 4, - 1, - 3] TTrue) = Inr ([0, - 1, 0], 1)"
  by code_simp

theorem undetermined_component_empty_witness:
  "cylinder (components (D_decomposition (torus2_vertical TTrue TUnknown)) ! 1) = TUnknown
   \<and> cylinder_deformation_subspace torus2_orbit (torus2_vertical TTrue TUnknown) = Inr []
   \<and> update_tangent_space_from_flow_decomposition torus2_orbit (torus2_vertical TTrue TUnknown)
       = Inr torus2_orbit"
proof -
  let ?D = "torus2_vertical TTrue TUnknown"
  have c: "components (D_decomposition ?D)
      = [torus2_component [1, 4, - 1, - 3] TTrue, torus2_component [2, 3, - 2, - 4] TUnknown]"
    by (simp add: torus2_vertical_def)
  have cy: "cylinder (torus2_component [1, 4, - 1, - 3] TTrue) = TTrue"
    "cylinder (torus2_component [2, 3, - 2, - 4] TUnknown) = TUnknown"
    "circumferenceHolonomy (torus2_component [1, 4, - 1, - 3] TTrue) = (0, 1)"
    by (simp_all add: torus2_component_def)
  have 2: "\<exists>c\<in>set (components (D_decomposition ?D)). cylinder c = TUnknown"
    unfolding c using cy by simp
  have "cylinder_ok torus2_orbit ?D (torus2_component [1, 4, - 1, - 3] TTrue)"
    unfolding cylinder_ok_def torus2_circumference_width cy by simp
  then have 3: "list_all (cylinder_ok torus2_orbit ?D)
           (takeWhile (\<lambda>c. cylinder c \<noteq> TUnknown) (components (D_decomposition ?D)))"
    unfolding c using cy by simp
  from undetermined_component_empty[OF torus2_kz 2 3] c cy show ?thesis by simp
qed

subsection \<open>The intersection matrix is skew-symmetric\<close>

lemma foldl_err_inv:
  assumes "foldl_err f a xs = Inr b" and "P a"
    and "\<And>a x a'. P a \<Longrightarrow> x \<in> set xs \<Longrightarrow> f a x = Inr a' \<Longrightarrow> P a'"
  shows "P b"
  using assms
proof (induction xs arbitrary: a)
  case Nil
  then show ?case by simp
next
  case (Cons x xs)
  from Cons.prems(1) obtain a' where a': "f a x = Inr a'" and r: "foldl_err f a' xs = Inr b"
    by (auto split: sum.splits)
  have pa: "P a'" using Cons.prems(3)[OF Cons.prems(2) _ a'] by simp
  show ?case
  proof (rule Cons.IH[OF r pa])
    fix a0 y a1
    assume "P a0" "y \<in> set xs" "f a0 y = Inr a1"
    then show "P a1" using Cons.prems(3)[of a0 y a1] by simp
  qed
qed

lemma set_entry_dims:
  "length M = d \<Longrightarrow> \<forall>r\<in>set M. length r = d \<Longrightarrow>
   length (set_entry M i j x) = d \<and> (\<forall>r\<in>set (set_entry M i j x). length r = d)"
proof (cases "i < length M")
  case True
  assume l: "length M = d" "\<forall>r\<in>set M. length r = d"
  have "set (M[i := (M ! i)[j := x]]) \<subseteq> insert ((M ! i)[j := x]) (set M)"
    by (rule set_update_subset_insert)
  moreover have "length ((M ! i)[j := x]) = d" using True l by simp
  ultimately show ?thesis using l by (auto simp: set_entry_def)
next
  case False
  assume l: "length M = d" "\<forall>r\<in>set M. length r = d"
  from False have "set_entry M i j x = M" by (simp add: set_entry_def list_update_beyond)
  with l show ?thesis by simp
qed

lemma set_entry_nth:
  assumes "length M = d" and "\<forall>r\<in>set M. length r = d"
    and "i < d" and "j < d" and "a < d" and "b < d"
  shows "set_entry M i j x ! a ! b = (if a = i \<and> b = j then x else M ! a ! b)"
proof (cases "a = i")
  case True
  have "length (M ! i) = d" using assms(1,2,3) by simp
  moreover have "set_entry M i j x ! a = (M ! i)[j := x]"
    using True assms(1,3) by (simp add: set_entry_def)
  ultimately show ?thesis using True assms(4,6) by (simp add: nth_list_update)
next
  case False
  then have "set_entry M i j x ! a = M ! a" by (simp add: set_entry_def)
  with False show ?thesis by simp
qed

lemma skew_set_pair:
  assumes "skew d M" and "i < d" and "j < d" and "i \<noteq> j"
  shows "skew d (set_entry (set_entry M i j x) j i (- (set_entry M i j x ! i ! j)))"
proof -
  from assms(1) have l: "length M = d" "\<forall>r\<in>set M. length r = d"
    and s: "\<And>a b. a < d \<Longrightarrow> b < d \<Longrightarrow> M ! a ! b = - M ! b ! a"
    unfolding skew_def by blast+
  let ?M1 = "set_entry M i j x"
  note d1 = set_entry_dims[OF l, of i j x]
  then have l1: "length ?M1 = d" "\<forall>r\<in>set ?M1. length r = d" by auto
  let ?M2 = "set_entry ?M1 j i (- (?M1 ! i ! j))"
  note d2 = set_entry_dims[OF l1, of j i "- (?M1 ! i ! j)"]
  have n1: "?M1 ! a ! b = (if a = i \<and> b = j then x else M ! a ! b)" if "a < d" "b < d" for a b
    using set_entry_nth[OF l assms(2,3) that] .
  have n2: "?M2 ! a ! b = (if a = j \<and> b = i then - x else ?M1 ! a ! b)" if "a < d" "b < d" for a b
    using set_entry_nth[OF l1 assms(3,2) that] n1[OF assms(2,3)] by simp
  have "?M2 ! a ! b = - ?M2 ! b ! a" if ab: "a < d" "b < d" for a b
  proof -
    consider "a = i \<and> b = j" | "a = j \<and> b = i"
      | "\<not> (a = i \<and> b = j) \<and> \<not> (a = j \<and> b = i)" by blast
    then show ?thesis
    proof cases
      case 1
      show ?thesis unfolding n2[OF ab] n2[OF ab(2,1)] n1[OF ab] n1[OF ab(2,1)]
        using 1 assms(4) by simp
    next
      case 2
      show ?thesis unfolding n2[OF ab] n2[OF ab(2,1)] n1[OF ab] n1[OF ab(2,1)]
        using 2 assms(4) by simp
    next
      case 3
      from 3 have c: "(a = j \<and> b = i) = False" "(a = i \<and> b = j) = False"
        "(b = j \<and> a = i) = False" "(b = i \<and> a = j) = False" by blast+
      have "?M2 ! a ! b = M ! a ! b"
        by (simp only: n2[OF ab] n1[OF ab] c if_False)
      moreover have "?M2 ! b ! a = M ! b ! a"
        by (simp only: n2[OF ab(2,1)] n1[OF ab(2,1)] c if_False)
      ultimately show ?thesis using s[OF ab] by (simp only:)
    qed
  qed
  then have "\<forall>a<d. \<forall>b<d. ?M2 ! a ! b = - ?M2 ! b ! a" by blast
  with d2 show ?thesis unfolding skew_def by blast
qed

lemma omega_pair_skew:
  assumes "omega_pair cinv ss i p M j = Inr M'" and "skew d M" and "i < d" and "j < d" and "i \<noteq> j"
  shows "skew d M'"
proof -
  obtain pi1 pi2 si where p: "p = (pi1, pi2, si)" by (cases p) auto
  from assms(1) obtain pj1 pj2 sj where "contour_positions cinv (ss ! j) = Inr (pj1, pj2, sj)"
    by (auto simp: omega_pair_def p split: sum.splits)
  with assms(1) have "M' = M
      \<or> M' = set_entry (set_entry M i j (si * sj)) j i (- (set_entry M i j (si * sj) ! i ! j))
      \<or> M' = set_entry (set_entry M i j (- si * sj)) j i (- (set_entry M i j (- si * sj) ! i ! j))"
    by (auto simp: omega_pair_def p Let_def split: if_splits)
  with skew_set_pair[OF assms(2-5)] assms(2) show ?thesis by auto
qed

lemma omega_row_skew:
  assumes "omega_row cinv ss M i = Inr M'" and "skew (length ss) M" and "i < length ss"
  shows "skew (length ss) M'"
proof -
  from assms(1) obtain p where
    f: "foldl_err (omega_pair cinv ss i p) M [Suc i..<length ss] = Inr M'"
    by (auto simp: omega_row_def split: sum.splits)
  show ?thesis
  proof (rule foldl_err_inv[OF f, of "skew (length ss)"])
    show "skew (length ss) M" by fact
  next
    fix a x a'
    assume "skew (length ss) a" "x \<in> set [Suc i..<length ss]" "omega_pair cinv ss i p a x = Inr a'"
    then show "skew (length ss) a'"
      using omega_pair_skew[of cinv ss i p a x a' "length ss"] assms(3) by auto
  qed
qed

lemma skew_zero_matrix: "skew d (zero_matrix d d)"
  by (simp add: skew_def zero_matrix_def zero_vec_def)

text \<open>
  Claim C5. The matrix that \<^verbatim>\<open>_intersection_matrix\<close> returns is skew-symmetric: for all
  indices \<open>i\<close> and \<open>j\<close> into the spanning set, the entry at \<open>(i, j)\<close> is the negative of
  the entry at \<open>(j, i)\<close>, and every entry on the diagonal is zero.
\<close>

theorem intersection_matrix_skew_symmetric:
  assumes "intersection_matrix S spanning_set = Some (Inr Omega)"
    and "i < length spanning_set" and "j < length spanning_set"
  shows "Omega ! i ! j = - Omega ! j ! i \<and> Omega ! i ! i = 0"
proof -
  let ?d = "length spanning_set"
  from assms(1) obtain cinv where
    f: "foldl_err (omega_row cinv spanning_set) (zero_matrix ?d ?d) [0..<?d] = Inr Omega"
    by (auto simp: intersection_matrix_def Let_def split: list.splits option.splits if_splits)
  have "skew ?d Omega"
  proof (rule foldl_err_inv[OF f, of "skew ?d"])
    show "skew ?d (zero_matrix ?d ?d)" by (rule skew_zero_matrix)
  next
    fix a x a'
    assume "skew ?d a" "x \<in> set [0..<?d]" "omega_row cinv spanning_set a x = Inr a'"
    then show "skew ?d a'" using omega_row_skew[of cinv spanning_set a x a'] by simp
  qed
  then have s: "\<And>a b. a < ?d \<Longrightarrow> b < ?d \<Longrightarrow> Omega ! a ! b = - Omega ! b ! a"
    unfolding skew_def by blast
  from s[OF assms(2) assms(2)] have "Omega ! i ! i = 0" by simp
  with s[OF assms(2,3)] show ?thesis by simp
qed

theorem intersection_matrix_skew_symmetric_witness:
  "intersection_matrix torus2 [2, 4, 5] = Some (Inr [[0, 1, 1], [- 1, 0, 0], [- 1, 0, 0]])
   \<and> [[0, 1, 1], [- 1, 0, 0], [- 1, 0, 0 :: int]] ! 0 ! 1 = - [[0, 1, 1], [- 1, 0, 0], [- 1, 0, 0]] ! 1 ! 0
   \<and> [[0, 1, 1], [- 1, 0, 0], [- 1, 0, 0 :: int]] ! 0 ! 0 = 0"
  using intersection_matrix_skew_symmetric[OF torus2_intersection_matrix, of 0 1]
    torus2_intersection_matrix
  by simp

subsection \<open>\<^verbatim>\<open>lift\<close>\<close>

lemma dot_zero_left: "dot (replicate n 0) (x :: 'a::semiring_0 list) = 0"
proof (induction n arbitrary: x)
  case 0
  then show ?case by (simp add: dot_def)
next
  case (Suc n)
  then show ?case by (cases x) (simp_all add: dot_def)
qed

lemma dot_unit_vec:
  "e < n \<Longrightarrow> length x = n \<Longrightarrow> dot (unit_vec n e) (x :: 'a::semiring_1 list) = x ! e"
proof (induction n arbitrary: e x)
  case 0
  then show ?case by simp
next
  case (Suc n)
  from Suc.prems(2) obtain y ys where x: "x = y # ys" and l: "length ys = n" by (cases x) auto
  show ?case
  proof (cases e)
    case 0
    have "dot (1 # replicate n 0) (y # ys) = y + dot (replicate n 0) ys" by (simp add: dot_def)
    with 0 x show ?thesis by (simp add: unit_vec_def zero_vec_def dot_zero_left)
  next
    case (Suc e')
    with Suc.prems(1) have e': "e' < n" by simp
    have "dot (0 # (replicate n 0)[e' := 1]) (y # ys) = dot ((replicate n 0)[e' := 1]) ys"
      by (simp add: dot_def)
    with Suc.IH[OF e' l] Suc x show ?thesis by (simp add: unit_vec_def zero_vec_def)
  qed
qed

text \<open>
  Claim C7, amended. A vector that \<^verbatim>\<open>lift(v)\<close> returns satisfies every face-boundary
  relation (its product with each element of \<^verbatim>\<open>boundaries()\<close> is zero) and has, at the
  edge of each element of the spanning set, the entry that \<open>v\<close> has for that element.
\<close>

theorem lift_satisfies_relations:
  assumes "is_lift orb v x" and "boundaries (O_surface orb) = Inr B"
    and "b \<in> set B" and "i < length (O_spanning_set orb)"
  shows "dot (map of_int b) x = 0 \<and> x ! (O_spanning_set orb ! i) = v ! i"
proof -
  let ?n = "nedges (O_surface orb)" and ?ss = "O_spanning_set orb"
  from assms(1,2) have lx: "length x = ?n" and lv: "length v = length ?ss"
    and ss: "\<forall>e\<in>set ?ss. e < ?n"
    and eq: "mat_vec (map (unit_vec ?n) ?ss @ map (map of_int) B) x
               = v @ zero_vec (?n + 1 - length ?ss)"
    by (auto simp: is_lift_def lift_system_def Let_def list_ex_iff split: if_splits)
  from eq have "map (\<lambda>r. dot r x) (map (unit_vec ?n) ?ss) @ map (\<lambda>r. dot r x) (map (map of_int) B)
      = v @ zero_vec (?n + 1 - length ?ss)" by (simp add: mat_vec_def)
  with lv have 1: "map (\<lambda>r. dot r x) (map (unit_vec ?n) ?ss) = v"
    and 2: "map (\<lambda>r. dot r x) (map (map of_int) B) = zero_vec (?n + 1 - length ?ss)"
    by (simp_all add: append_eq_append_conv)
  from 2 assms(3) have "dot (map of_int b) x \<in> set (zero_vec (?n + 1 - length ?ss))"
    by (metis (no_types, lifting) image_eqI list.set_map)
  then have a: "dot (map of_int b) x = 0" by (auto simp: zero_vec_def)
  from 1 assms(4) have "v ! i = dot (unit_vec ?n (?ss ! i)) x"
    by (metis length_map nth_map)
  also have "\<dots> = x ! (?ss ! i)" using dot_unit_vec[OF _ lx] ss assms(4) by simp
  finally show ?thesis using a by simp
qed

lemma torus2_boundaries:
  "boundaries torus2
     = Inr [[1, 0, 0, 1, - 1, 0], [1, 0, 1, 0, - 1, 0], [0, 1, 1, 0, 0, - 1], [0, 1, 0, 1, 0, - 1]]"
  by code_simp

lemma torus2_lift: "is_lift torus2_orbit [1, 0, 0] [- 1, - 1, 1, 1, 0, 0]"
  by code_simp

text \<open>On the example, \<^verbatim>\<open>lift\<close> of \<open>(1, 0, 0)\<close> has one possible result.\<close>

lemma torus2_lift_unique:
  assumes "is_lift torus2_orbit [1, 0, 0] x"
  shows "x = [- 1, - 1, 1, 1, 0, 0]"
proof -
  have s: "O_surface torus2_orbit = torus2" "O_spanning_set torus2_orbit = [2, 4, 5]"
    "nedges torus2 = 6"
    by (simp_all add: torus2_orbit_def torus2_def)
  from assms have lx: "length x = 6" by (auto simp: is_lift_def s split: sum.splits)
  then obtain x0 x1 x2 x3 x4 x5 where x: "x = [x0, x1, x2, x3, x4, x5]"
    by (auto simp: length_Suc_conv eval_nat_numeral)
  note r = lift_satisfies_relations[OF assms, unfolded s, OF torus2_boundaries]
  have "x2 = 1" "x4 = 0" "x5 = 0"
    using r[of "[1, 0, 0, 1, - 1, 0]" 0] r[of "[1, 0, 0, 1, - 1, 0]" 1] r[of "[1, 0, 0, 1, - 1, 0]" 2]
    by (simp_all add: x)
  moreover have "x0 + x3 - x4 = 0" "x0 + x2 - x4 = 0" "x1 + x2 - x5 = 0"
    using r[of "[1, 0, 0, 1, - 1, 0]" 0] r[of "[1, 0, 1, 0, - 1, 0]" 0] r[of "[0, 1, 1, 0, 0, - 1]" 0]
    by (simp_all add: x dot_def)
  ultimately show ?thesis by (simp add: x)
qed

theorem lift_satisfies_relations_witness:
  "is_lift torus2_orbit [1, 0, 0] [- 1, - 1, 1, 1, 0, 0]
   \<and> boundaries (O_surface torus2_orbit)
       = Inr [[1, 0, 0, 1, - 1, 0], [1, 0, 1, 0, - 1, 0], [0, 1, 1, 0, 0, - 1], [0, 1, 0, 1, 0, - 1]]
   \<and> dot (map of_int [1, 0, 0, 1, - 1, 0]) [- 1, - 1, 1, 1, 0, 0 :: rat] = 0
   \<and> [- 1, - 1, 1, 1, 0, 0 :: rat] ! (O_spanning_set torus2_orbit ! 0) = [1, 0, 0] ! 0"
proof -
  have s: "O_surface torus2_orbit = torus2" by (simp add: torus2_orbit_def)
  have b: "boundaries (O_surface torus2_orbit)
       = Inr [[1, 0, 0, 1, - 1, 0], [1, 0, 1, 0, - 1, 0], [0, 1, 1, 0, 0, - 1], [0, 1, 0, 1, 0, - 1]]"
    unfolding s by (rule torus2_boundaries)
  have "[1, 0, 0, 1, - 1, 0] \<in> set [[1, 0, 0, 1, - 1, 0], [1, 0, 1, 0, - 1, 0], [0, 1, 1, 0, 0, - 1], [0, 1, 0, 1, 0, - 1 :: int]]"
    by simp
  moreover have "0 < length (O_spanning_set torus2_orbit)" by (simp add: torus2_orbit_def)
  ultimately show ?thesis
    using lift_satisfies_relations[OF torus2_lift b] torus2_lift b by blast
qed

text \<open>
  Claim C7 as stated fails: on the example, \<^verbatim>\<open>lift\<close> of \<open>(1, 0, 0)\<close> is
  \<open>(-1, -1, 1, 1, 0, 0)\<close>, and \<^verbatim>\<open>proj\<close> times that vector is \<open>(4, -1, -1)\<close>, not
  \<open>(1, 0, 0)\<close>.
\<close>

theorem lift_projection_counterexample:
  "is_lift torus2_orbit [1, 0, 0] [- 1, - 1, 1, 1, 0, 0]
   \<and> mat_vec (map (map of_int) (O_proj torus2_orbit)) [- 1, - 1, 1, 1, 0, 0 :: rat] = [4, - 1, - 1]
   \<and> [4, - 1, - 1] \<noteq> [1, 0, 0 :: rat]"
proof -
  have "mat_vec (map (map of_int) (O_proj torus2_orbit)) [- 1, - 1, 1, 1, 0, 0 :: rat] = [4, - 1, - 1]"
    by code_simp
  with torus2_lift show ?thesis by simp
qed

subsection \<open>The projection and the boundaries of the faces\<close>

lemma set_half_edges: "set (half_edges S) = {h. valid_he S h}"
proof (intro set_eqI iffI)
  fix h assume "h \<in> set (half_edges S)"
  then show "h \<in> {h. valid_he S h}"
    by (auto simp: half_edges_def valid_he_def positive_def negative_def)
next
  fix h assume "h \<in> {h. valid_he S h}"
  then have v: "h \<noteq> 0" "\<bar>h\<bar> \<le> int (nedges S)" by (simp_all add: valid_he_def)
  let ?e = "nat (\<bar>h\<bar> - 1)"
  have "?e < nedges S" using v by linarith
  moreover have "h = positive ?e \<or> h = negative ?e" using v by (auto simp: positive_def negative_def)
  ultimately show "h \<in> set (half_edges S)" by (auto simp: half_edges_def)
qed

lemma distinct_half_edges: "distinct (half_edges S)"
  unfolding half_edges_def
  by (rule distinct_concat) (auto simp: distinct_map inj_on_def positive_def negative_def)

lemma he_index_mod: "he_index h mod 2 = (if h > 0 then 0 else 1)"
  by (simp add: he_index_def)

lemma he_index_div: "he_index h div 2 = nat (\<bar>h\<bar> - 1)"
  by (auto simp: he_index_def)

lemma he_index_inj:
  assumes "he_index a = he_index b" and "a \<noteq> 0" and "b \<noteq> 0"
  shows "a = b"
proof -
  from assms(1) have "he_index a mod 2 = he_index b mod 2" "he_index a div 2 = he_index b div 2"
    by simp_all
  then have "(a > 0) = (b > 0)" "nat (\<bar>a\<bar> - 1) = nat (\<bar>b\<bar> - 1)"
    unfolding he_index_mod he_index_div by (simp_all split: if_splits)
  with assms(2,3) show ?thesis by linarith
qed

lemma edge_index_eq: "edge_index a = edge_index b \<Longrightarrow> a \<noteq> 0 \<Longrightarrow> b \<noteq> 0 \<Longrightarrow> a = b \<or> a = - b"
  by (auto simp: edge_index_def)

lemma edge_index_uminus: "edge_index (- h) = edge_index h"
  by (simp add: edge_index_def)

lemma edge_index_valid: "valid_he S h \<Longrightarrow> edge_index h < nedges S"
  by (auto simp: edge_index_def valid_he_def)

lemma valid_uminus: "valid_he S (- h) = valid_he S h"
  by (simp add: valid_he_def)

lemma he_sign_positive: "he_sign (positive e) = 1"
  by (simp add: he_sign_def he_index_def positive_def)

lemma he_sign_negative: "he_sign (negative e) = - 1"
  by (simp add: he_sign_def he_index_def negative_def)

lemma edge_index_positive: "edge_index (positive e) = e"
  by (simp add: edge_index_def positive_def)

lemma edge_index_negative: "edge_index (negative e) = e"
  by (simp add: edge_index_def negative_def)

lemma valid_cases:
  assumes "valid_he S h"
  obtains e where "e < nedges S" "h = positive e" | e where "e < nedges S" "h = negative e"
proof -
  from assms have "h \<in> set (half_edges S)" by (simp add: set_half_edges)
  then show ?thesis using that by (auto simp: half_edges_def)
qed

lemma he_sign_sq: "he_sign h * he_sign h = 1"
  by (simp add: he_sign_def)

lemma wf_next:
  assumes "wf_surface S" and "valid_he S h"
  shows "valid_he S (nextInFace S h)"
    and "nextInFace S (nextInFace S (nextInFace S h)) = h"
    and "edge_index (nextInFace S h) \<noteq> edge_index h"
  using assms by (auto simp: wf_surface_def list_all_iff set_half_edges)

lemma wf_next2:
  assumes "wf_surface S" and "valid_he S h"
  shows "valid_he S (nextInFace S (nextInFace S h))"
    and "edge_index (nextInFace S (nextInFace S h)) \<noteq> edge_index h"
    and "edge_index (nextInFace S (nextInFace S h)) \<noteq> edge_index (nextInFace S h)"
proof -
  note a = wf_next[OF assms]
  note b = wf_next[OF assms(1) a(1)]
  show "valid_he S (nextInFace S (nextInFace S h))" by (rule b(1))
  show "edge_index (nextInFace S (nextInFace S h)) \<noteq> edge_index (nextInFace S h)" by (rule b(3))
  from wf_next(3)[OF assms(1) b(1)] a(2)
  show "edge_index (nextInFace S (nextInFace S h)) \<noteq> edge_index h" by simp
qed

lemma cycle_next: "wf_surface S \<Longrightarrow> valid_he S h \<Longrightarrow> cycle S (nextInFace S h) = cycle S h"
  using wf_next(2)[of S h] by (auto simp: cycle_def)

lemma cycle_valid: "wf_surface S \<Longrightarrow> valid_he S h \<Longrightarrow> g \<in> cycle S h \<Longrightarrow> valid_he S g"
  using wf_next(1)[of S h] wf_next2(1)[of S h] by (auto simp: cycle_def)

lemma cycle_eq: 
  assumes "wf_surface S" and "valid_he S h" and "g \<in> cycle S h"
  shows "cycle S g = cycle S h"
proof -
  from assms(3) consider "g = h" | "g = nextInFace S h" | "g = nextInFace S (nextInFace S h)"
    by (auto simp: cycle_def)
  then show ?thesis
  proof cases
    case 1 then show ?thesis by simp
  next
    case 2 then show ?thesis using cycle_next[OF assms(1,2)] by simp
  next
    case 3
    then show ?thesis
      using cycle_next[OF assms(1,2)] cycle_next[OF assms(1) wf_next(1)[OF assms(1,2)]] by simp
  qed
qed

lemma face_in_cycle: "half_edge_to_face S h \<in> cycle S h"
  by (simp add: half_edge_to_face_def min_by_index_def cycle_def Let_def)

lemma face_min: "g \<in> cycle S h \<Longrightarrow> he_index (half_edge_to_face S h) \<le> he_index g"
  by (auto simp: half_edge_to_face_def min_by_index_def cycle_def Let_def)

lemma face_cycle_eq:
  assumes "wf_surface S" and "valid_he S h" and "valid_he S g" and "cycle S g = cycle S h"
  shows "half_edge_to_face S g = half_edge_to_face S h"
proof -
  let ?a = "half_edge_to_face S g" and ?b = "half_edge_to_face S h"
  have "?a \<in> cycle S h" "?b \<in> cycle S g" using face_in_cycle[of S g] face_in_cycle[of S h] assms(4) by auto
  then have "he_index ?a = he_index ?b"
    using face_min[of ?a S h] face_min[of ?b S g] by simp
  moreover have "?a \<noteq> 0" "?b \<noteq> 0"
    using cycle_valid[OF assms(1,3) face_in_cycle] cycle_valid[OF assms(1,2) face_in_cycle]
    by (auto simp: valid_he_def)
  ultimately show ?thesis by (rule he_index_inj)
qed

lemma face_of_cycle:
  "wf_surface S \<Longrightarrow> valid_he S h \<Longrightarrow> g \<in> cycle S h \<Longrightarrow> half_edge_to_face S g = half_edge_to_face S h"
  using face_cycle_eq cycle_eq cycle_valid by metis

lemma face_valid: "wf_surface S \<Longrightarrow> valid_he S h \<Longrightarrow> valid_he S (half_edge_to_face S h)"
  using cycle_valid face_in_cycle by metis

lemma face_idem:
  "wf_surface S \<Longrightarrow> valid_he S h \<Longrightarrow> half_edge_to_face S (half_edge_to_face S h) = half_edge_to_face S h"
  using face_of_cycle face_in_cycle by metis

lemma update_absent: "k \<notin> fst ` set al \<Longrightarrow> AList.update k v al = al @ [(k, v)]"
  by (induction al) auto

lemma tree_inv_keys:
  assumes "wf_surface S" and "tree_inv S r (t, todo, edges)" and "g \<in> set (map fst t)"
  shows "valid_he S g \<and> half_edge_to_face S g = g"
proof -
  from assms(2,3) consider "g = r" "valid_he S r" "half_edge_to_face S r = r"
    | e where "e \<in> set edges" "valid_he S e" "g = half_edge_to_face S e"
    by (auto simp: tree_inv_def)
  then show ?thesis
    using face_valid[OF assms(1)] face_idem[OF assms(1)] by cases auto
qed

lemma st_visit_inv:
  assumes wf: "wf_surface S" and inv: "tree_inv S r (t, todo, edges)"
    and f: "valid_he S f" and ff: "half_edge_to_face S f \<in> set (map fst t)"
    and st': "st_visit S f (t, todo, edges) = (t', todo', edges')"
  shows "tree_inv S r (t', todo', edges') \<and> set (map fst t) \<subseteq> set (map fst t')"
proof (cases "half_edge_to_face S (- f) \<in> set (map fst t)")
  case True
  with st' have "(t', todo', edges') = (t, todo, edges)"
    by (simp add: st_visit_def Let_def dict_keys_def)
  with inv show ?thesis by simp
next
  case False
  let ?g = "half_edge_to_face S (- f)"
  from False st' have e: "t' = AList.update ?g (Some (- f)) t" "todo' = ?g # todo"
    "edges' = edges @ [- f]"
    by (simp_all add: st_visit_def Let_def dict_keys_def)
  from False have t': "t' = t @ [(?g, Some (- f))]" unfolding e by (intro update_absent) simp
  from inv have i: "valid_he S r" "half_edge_to_face S r = r"
    "map fst t = r # map (half_edge_to_face S) edges" "map snd t = None # map Some edges"
    "distinct (map fst t)" "\<forall>e\<in>set edges. valid_he S e"
    "\<forall>k<length edges. half_edge_to_face S (- edges ! k)
               \<in> set (r # take k (map (half_edge_to_face S) edges))"
    "set todo \<subseteq> set (map fst t)"
    unfolding tree_inv_def prod.case by blast+
  have ord: "half_edge_to_face S (- edges' ! k)
               \<in> set (r # take k (map (half_edge_to_face S) edges'))" if k: "k < length edges'" for k
  proof (cases "k < length edges")
    case True
    then show ?thesis using i(7) by (simp add: e nth_append)
  next
    case False
    with k have "k = length edges" by (simp add: e)
    then show ?thesis using ff i(3) by (simp add: e)
  qed
  have "tree_inv S r (t', todo', edges')"
    unfolding tree_inv_def prod.case
  proof (intro conjI)
    show "valid_he S r" "half_edge_to_face S r = r" by fact+
    show "map fst t' = r # map (half_edge_to_face S) edges'" using i(3) by (simp add: t' e)
    show "map snd t' = None # map Some edges'" using i(4) by (simp add: t' e)
    show "distinct (map fst t')" using i(5) False by (simp add: t')
    show "\<forall>e\<in>set edges'. valid_he S e" using i(6) f by (simp add: e valid_uminus)
    show "\<forall>k<length edges'. half_edge_to_face S (- edges' ! k)
               \<in> set (r # take k (map (half_edge_to_face S) edges'))" using ord by blast
    show "set todo' \<subseteq> set (map fst t')" using i(8) by (auto simp: t' e)
  qed
  then show ?thesis by (auto simp: t')
qed

lemma st_visit_face_inv:
  assumes wf: "wf_surface S" and inv: "tree_inv S r (t, todo, edges)"
    and f: "f \<in> set (map fst t)"
  shows "tree_inv S r (st_visit_face S f (t, todo, edges))"
proof -
  let ?f1 = "nextInFace S f" let ?f2 = "nextInFace S (nextInFace S f)"
  from tree_inv_keys[OF wf inv f] have vf: "valid_he S f" and rf: "half_edge_to_face S f = f" by auto
  have v1: "valid_he S ?f1" and v2: "valid_he S ?f2"
    using wf_next(1)[OF wf vf] wf_next2(1)[OF wf vf] by auto
  have r1: "half_edge_to_face S ?f1 = f" and r2: "half_edge_to_face S ?f2 = f"
    using face_of_cycle[OF wf vf, of ?f1] face_of_cycle[OF wf vf, of ?f2] rf by (auto simp: cycle_def)
  obtain t1 todo1 edges1 where s1: "st_visit S f (t, todo, edges) = (t1, todo1, edges1)"
    by (cases "st_visit S f (t, todo, edges)") auto
  from st_visit_inv[OF wf inv vf _ s1] f rf
  have i1: "tree_inv S r (t1, todo1, edges1)" and k1: "set (map fst t) \<subseteq> set (map fst t1)" by auto
  obtain t2 todo2 edges2 where s2: "st_visit S ?f1 (t1, todo1, edges1) = (t2, todo2, edges2)"
    by (cases "st_visit S ?f1 (t1, todo1, edges1)") auto
  from st_visit_inv[OF wf i1 v1 _ s2] f r1 k1
  have i2: "tree_inv S r (t2, todo2, edges2)" and k2: "set (map fst t1) \<subseteq> set (map fst t2)" by auto
  obtain t3 todo3 edges3 where s3: "st_visit S ?f2 (t2, todo2, edges2) = (t3, todo3, edges3)"
    by (cases "st_visit S ?f2 (t2, todo2, edges2)") auto
  from st_visit_inv[OF wf i2 v2 _ s3] f r2 k1 k2
  have i3: "tree_inv S r (t3, todo3, edges3)" by auto
  then show ?thesis by (simp add: st_visit_face_def Let_def s1 s2 s3)
qed

lemma st_loop_inv:
  assumes "st_loop S st = Some res" and "wf_surface S" and "tree_inv S r st"
  shows "tree_inv S r (fst res, [], snd res)"
proof -
  have "wf_surface S \<longrightarrow> tree_inv S r st \<longrightarrow> tree_inv S r (fst res, [], snd res)"
  proof (rule st_loop.raw_induct[where P = "\<lambda>S st res.
      wf_surface S \<longrightarrow> tree_inv S r st \<longrightarrow> tree_inv S r (fst res, [], snd res)"], goal_cases)
    case (1 loop S st res)
    note IH = 1(1) and eq = 1(2)
    show ?case
    proof (intro impI)
      assume wf: "wf_surface S" and inv: "tree_inv S r st"
      obtain t todo edges where st: "st = (t, todo, edges)" by (cases st) auto
      show "tree_inv S r (fst res, [], snd res)"
      proof (cases todo)
        case Nil
        with eq st have "res = (t, edges)" by simp
        with inv st Nil show ?thesis by simp
      next
        case (Cons f rest)
        with eq st have c: "loop S (st_visit_face S f (t, rest, edges)) = Some res" by simp
        note u = inv[unfolded st Cons tree_inv_def prod.case]
        from u have sub: "set (f # rest) \<subseteq> set (map fst t)" by blast
        from sub have f: "f \<in> set (map fst t)" by simp
        from sub have "set rest \<subseteq> set (map fst t)" by simp
        with u have inv': "tree_inv S r (t, rest, edges)"
          unfolding tree_inv_def prod.case by blast
        from IH[OF c] wf st_visit_face_inv[OF wf inv' f] show ?thesis by blast
      qed
    qed
  next
    case 2
    show ?case by (rule assms(1))
  qed
  with assms(2,3) show ?thesis by blast
qed

lemma dims_nth: "dims n M \<Longrightarrow> j < n \<Longrightarrow> length (M ! j) = n"
  by (simp add: dims_def)

lemma dims_update: "dims n M \<Longrightarrow> length r = n \<Longrightarrow> dims n (M[i := r])"
  unfolding dims_def using set_update_subset_insert[of M i r] by auto

lemma gauss_step:
  assumes "st_gauss_step S M f1 = Inr M'" and "dims (nedges S) M"
  defines "i1 \<equiv> edge_index f1"
    and "i2 \<equiv> edge_index (nextInFace S f1)"
    and "i3 \<equiv> edge_index (nextInFace S (nextInFace S f1))"
  shows "dims (nedges S) M'"
    and "i1 < nedges S"
    and "\<And>j. j \<noteq> i1 \<Longrightarrow> M' ! j = M ! j"
    and "\<And>k. k < nedges S \<Longrightarrow>
           M' ! i1 ! k = - he_sign f1 * (he_sign (nextInFace S f1) * M ! i2 ! k
                           + he_sign (nextInFace S (nextInFace S f1)) * M ! i3 ! k)"
    and "\<And>j. j < nedges S \<Longrightarrow> M' ! j ! i1 = 0"
proof -
  let ?n = "nedges S"
  let ?row = "vec_scale (- he_sign f1)
     (vec_add (vec_scale (he_sign (nextInFace S f1)) (M ! i2))
              (vec_scale (he_sign (nextInFace S (nextInFace S f1))) (M ! i3)))"
  from assms(1) have b: "i1 < ?n" "i2 < ?n" "i3 < ?n" and M': "M' = M[i1 := ?row]"
    and z: "\<not> list_ex (\<lambda>j. M' ! j ! i1 \<noteq> 0) [0..<?n]"
    by (auto simp: st_gauss_step_def Let_def i1_def i2_def i3_def split: if_splits)
  show "i1 < ?n" by fact
  have l: "length (M ! i2) = ?n" "length (M ! i3) = ?n" using dims_nth[OF assms(2)] b by auto
  then have lr: "length ?row = ?n" by (simp add: vec_scale_def vec_add_def)
  show "dims ?n M'" unfolding M' by (rule dims_update[OF assms(2) lr])
  show "M' ! j = M ! j" if "j \<noteq> i1" for j using that by (simp add: M')
  have "M' ! i1 = ?row" using b assms(2) by (simp add: M' dims_def)
  then show "M' ! i1 ! k = - he_sign f1 * (he_sign (nextInFace S f1) * M ! i2 ! k
                           + he_sign (nextInFace S (nextInFace S f1)) * M ! i3 ! k)"
    if "k < ?n" for k using that l by (simp add: vec_scale_def vec_add_def)
  show "M' ! j ! i1 = 0" if "j < ?n" for j using z that by (auto simp: list_ex_iff)
qed

lemma gauss_fold_dims:
  assumes "foldl_err (st_gauss_step S) M0 es = Inr M" and "dims (nedges S) M0"
  shows "dims (nedges S) M"
  by (rule foldl_err_inv[OF assms(1), of "dims (nedges S)"]) (use assms(2) gauss_step(1) in blast)+

lemma gauss_fold_zero_column:
  assumes "foldl_err (st_gauss_step S) M0 es = Inr M" and "dims (nedges S) M0"
    and "\<forall>j<nedges S. M0 ! j ! c = 0" and "c < nedges S"
  shows "\<forall>j<nedges S. M ! j ! c = 0"
proof -
  let ?P = "\<lambda>M. dims (nedges S) M \<and> (\<forall>j<nedges S. M ! j ! c = 0)"
  have "?P M"
  proof (rule foldl_err_inv[OF assms(1), of ?P])
    show "?P M0" using assms(2,3) by simp
  next
    fix A x A' assume A: "?P A" and s: "st_gauss_step S A x = Inr A'"
    note g = gauss_step[OF s conjunct1[OF A]]
    have "A' ! j ! c = 0" if j: "j < nedges S" for j
    proof (cases "j = edge_index x")
      case True
      from s have b: "edge_index (nextInFace S x) < nedges S"
        "edge_index (nextInFace S (nextInFace S x)) < nedges S"
        by (auto simp: st_gauss_step_def Let_def split: if_splits)
      with A g(4)[OF assms(4)] True show ?thesis by simp
    next
      case False
      with g(3)[OF False] A j show ?thesis by simp
    qed
    with g(1) show "?P A'" by simp
  qed
  then show ?thesis by simp
qed

lemma gauss_fold_rows:
  assumes "foldl_err (st_gauss_step S) M0 es = Inr M" and "dims (nedges S) M0"
    and "j \<notin> edge_index ` set es"
  shows "M ! j = M0 ! j"
  using assms
proof (induction es arbitrary: M0)
  case Nil
  then show ?case by simp
next
  case (Cons e es)
  from Cons.prems(1) obtain M1 where s: "st_gauss_step S M0 e = Inr M1"
    and r: "foldl_err (st_gauss_step S) M1 es = Inr M" by (auto split: sum.splits)
  note g = gauss_step[OF s Cons.prems(2)]
  from Cons.prems(3) have "j \<noteq> edge_index e" "j \<notin> edge_index ` set es" by auto
  with Cons.IH[OF r g(1)] g(3) show ?case by simp
qed

lemma gauss_fold_tree_columns:
  assumes "foldl_err (st_gauss_step S) M0 es = Inr M" and "dims (nedges S) M0"
    and "e \<in> set es" and "j < nedges S"
  shows "M ! j ! edge_index e = 0"
  using assms
proof (induction es arbitrary: M0)
  case Nil
  then show ?case by simp
next
  case (Cons x es)
  from Cons.prems(1) obtain M1 where s: "st_gauss_step S M0 x = Inr M1"
    and r: "foldl_err (st_gauss_step S) M1 es = Inr M" by (auto split: sum.splits)
  note g = gauss_step[OF s Cons.prems(2)]
  show ?case
  proof (cases "e = x")
    case True
    from gauss_fold_zero_column[OF r g(1) _ g(2)] g(5) Cons.prems(4) True show ?thesis by blast
  next
    case False
    with Cons.prems(3) have "e \<in> set es" by simp
    from Cons.IH[OF r g(1) this Cons.prems(4)] show ?thesis .
  qed
qed

lemma relval_unchanged:
  assumes "\<forall>g\<in>cycle S b. M' ! edge_index g = M ! edge_index g"
  shows "relval S M' k b = relval S M k b"
  using assms by (simp add: relval_def cycle_def)

lemma gauss_step_rel:
  assumes wf: "wf_surface S" and v: "valid_he S f1"
    and s: "st_gauss_step S M f1 = Inr M'" and d: "dims (nedges S) M"
  shows "rel_holds S M' f1"
    and "\<And>b. sep S f1 b \<Longrightarrow> rel_holds S M b \<Longrightarrow> rel_holds S M' b"
proof -
  note g = gauss_step[OF s d]
  let ?f2 = "nextInFace S f1" let ?f3 = "nextInFace S (nextInFace S f1)"
  have ne: "edge_index ?f2 \<noteq> edge_index f1" "edge_index ?f3 \<noteq> edge_index f1"
    using wf_next(3)[OF wf v] wf_next2(2)[OF wf v] by auto
  show "rel_holds S M' f1" unfolding rel_holds_def
  proof (intro allI impI)
    fix k assume k: "k < nedges S"
    have "relval S M' k f1 = he_sign f1 * M' ! edge_index f1 ! k
        + he_sign ?f2 * M ! edge_index ?f2 ! k + he_sign ?f3 * M ! edge_index ?f3 ! k"
      using g(3)[OF ne(1)] g(3)[OF ne(2)] by (simp add: relval_def)
    also have "\<dots> = (1 - he_sign f1 * he_sign f1)
        * (he_sign ?f2 * M ! edge_index ?f2 ! k + he_sign ?f3 * M ! edge_index ?f3 ! k)"
      unfolding g(4)[OF k] by (simp add: algebra_simps)
    finally show "relval S M' k f1 = 0" by (simp add: he_sign_sq)
  qed
  show "rel_holds S M' b" if "sep S f1 b" "rel_holds S M b" for b
  proof -
    have "M' ! edge_index h = M ! edge_index h" if "h \<in> cycle S b" for h
    proof -
      from that \<open>sep S f1 b\<close> have "edge_index h \<noteq> edge_index f1"
        unfolding sep_def by (metis image_eqI)
      then show ?thesis by (rule g(3))
    qed
    then have "\<forall>h\<in>cycle S b. M' ! edge_index h = M ! edge_index h" by blast
    from relval_unchanged[OF this] that(2) show ?thesis by (simp add: rel_holds_def)
  qed
qed

lemma gauss_fold_rel:
  assumes "wf_surface S" and "foldl_err (st_gauss_step S) M0 es = Inr M"
    and "dims (nedges S) M0" and "\<forall>e\<in>set es. valid_he S e"
    and "sorted_wrt (\<lambda>a b. sep S b a) es"
    and "\<forall>b\<in>D. rel_holds S M0 b" and "\<forall>b\<in>D. \<forall>e\<in>set es. sep S e b"
  shows "\<forall>b\<in>D \<union> set es. rel_holds S M b"
  using assms(2-)
proof (induction es arbitrary: M0 D)
  case Nil
  then show ?case by simp
next
  case (Cons e es)
  from Cons.prems(1) obtain M1 where s: "st_gauss_step S M0 e = Inr M1"
    and r: "foldl_err (st_gauss_step S) M1 es = Inr M" by (auto split: sum.splits)
  from Cons.prems(3) have ve: "valid_he S e" and ves: "\<forall>e\<in>set es. valid_he S e" by auto
  note g = gauss_step(1)[OF s Cons.prems(2)]
  note q = gauss_step_rel[OF assms(1) ve s Cons.prems(2)]
  from Cons.prems(4) have so: "sorted_wrt (\<lambda>a b. sep S b a) es" and se: "\<forall>x\<in>set es. sep S x e"
    by auto
  have 1: "\<forall>b\<in>insert e D. rel_holds S M1 b"
    using q(1) q(2) Cons.prems(5,6) by auto
  have 2: "\<forall>b\<in>insert e D. \<forall>x\<in>set es. sep S x b"
    using se Cons.prems(6) by auto
  from Cons.IH[OF r g ves so 1 2] show ?case by auto
qed

lemma tree_sep:
  assumes wf: "wf_surface S" and inv: "tree_inv S r (t, todo, edges)"
    and kl: "k < l" "l < length edges"
  shows "sep S (edges ! k) (edges ! l)"
proof (rule ccontr)
  let ?F = "half_edge_to_face S"
  note u = inv[unfolded tree_inv_def prod.case]
  from u have kt: "map fst t = r # map ?F edges" and dk: "distinct (map fst t)"
    and ve: "\<forall>e\<in>set edges. valid_he S e"
    and ord: "\<forall>k<length edges. ?F (- edges ! k) \<in> set (r # take k (map ?F edges))"
    by blast+
  from dk kt have d: "distinct (map ?F edges)" and rn: "r \<notin> set (map ?F edges)" by auto
  from kl have k: "k < length edges" by simp
  from ve k kl have vk: "valid_he S (edges ! k)" and vl: "valid_he S (edges ! l)" by auto
  have neq: "?F (edges ! m) \<noteq> ?F (edges ! l)" if "m < l" for m
    using d that kl(2) by (simp add: distinct_conv_nth)
  assume "\<not> sep S (edges ! k) (edges ! l)"
  then obtain h where h: "h \<in> cycle S (edges ! l)" and eh: "edge_index (edges ! k) = edge_index h"
    by (auto simp: sep_def)
  have vh: "valid_he S h" by (rule cycle_valid[OF wf vl h])
  have fh: "?F h = ?F (edges ! l)" by (rule face_of_cycle[OF wf vl h])
  from edge_index_eq[OF eh] vk vh consider "h = edges ! k" | "h = - edges ! k"
    by (auto simp: valid_he_def)
  then show False
  proof cases
    case 1
    with fh neq[OF kl(1)] show False by simp
  next
    case 2
    with fh have f: "?F (- edges ! k) = ?F (edges ! l)" by simp
    from ord k have "?F (- edges ! k) = r \<or> ?F (- edges ! k) \<in> set (take k (map ?F edges))"
      by auto
    then show False
    proof
      assume "?F (- edges ! k) = r"
      with f rn kl(2) show False by (metis length_map nth_map nth_mem)
    next
      assume "?F (- edges ! k) \<in> set (take k (map ?F edges))"
      then obtain m where m: "m < k" "?F (- edges ! k) = map ?F edges ! m"
        using k by (auto simp: in_set_conv_nth)
      with k have "?F (- edges ! k) = ?F (edges ! m)" by simp
      with f neq[of m] m(1) kl(1) show False by simp
    qed
  qed
qed

lemma tree_sorted:
  assumes "wf_surface S" and "tree_inv S r (t, todo, edges)"
  shows "sorted_wrt (\<lambda>a b. sep S b a) (rev edges)"
proof -
  have "sorted_wrt (\<lambda>a b. sep S a b) edges"
    unfolding sorted_wrt_iff_nth_less using tree_sep[OF assms] by blast
  then show ?thesis by (simp add: sorted_wrt_rev)
qed

lemma relval_next:
  assumes "wf_surface S" and "valid_he S h"
  shows "relval S M k (nextInFace S h) = relval S M k h"
  using wf_next(2)[OF assms] by (simp add: relval_def)

lemma rel_holds_cycle:
  assumes wf: "wf_surface S" and v: "valid_he S h" and r: "rel_holds S M h" and g: "g \<in> cycle S h"
  shows "rel_holds S M g"
proof -
  have 1: "relval S M k (nextInFace S h) = relval S M k h" for k by (rule relval_next[OF wf v])
  have 2: "relval S M k (nextInFace S (nextInFace S h)) = relval S M k h" for k
    using relval_next[OF wf wf_next(1)[OF wf v]] 1 by simp
  from g consider "g = h" | "g = nextInFace S h" | "g = nextInFace S (nextInFace S h)"
    by (auto simp: cycle_def)
  then show ?thesis using r 1 2 by cases (simp_all add: rel_holds_def)
qed

lemma cycle_list: "set (face_list (h, nextInFace S h, nextInFace S (nextInFace S h))) = cycle S h"
  by (auto simp: face_list_def cycle_def)

lemma cycle_distinct:
  assumes "wf_surface S" and "valid_he S h"
  shows "distinct (face_list (h, nextInFace S h, nextInFace S (nextInFace S h)))"
  using wf_next(3)[OF assms] wf_next2(2,3)[OF assms] by (auto simp: face_list_def)

lemma cycle_self_mem:
  assumes "wf_surface S" and "valid_he S h" and "g \<in> cycle S h"
  shows "h \<in> cycle S g"
  using cycle_eq[OF assms] by (simp add: cycle_def)

lemma faces_loop_inv:
  assumes "wf_surface S" and "faces_inv S seen F" and "\<forall>h\<in>set hs. valid_he S h"
  shows "\<exists>seen'. faces_inv S seen' (faces_loop S seen F hs) \<and> seen \<union> set hs \<subseteq> seen'"
  using assms(2,3)
proof (induction hs arbitrary: seen F)
  case Nil
  then show ?case by auto
next
  case (Cons h1 hs)
  from Cons.prems(2) have v1: "valid_he S h1" and vs: "\<forall>h\<in>set hs. valid_he S h" by auto
  show ?case
  proof (cases "h1 \<in> seen")
    case True
    with Cons.IH[OF Cons.prems(1) vs] show ?thesis by auto
  next
    case False
    let ?f = "(h1, nextInFace S h1, nextInFace S (nextInFace S h1))"
    let ?seen = "insert (nextInFace S (nextInFace S h1)) (insert (nextInFace S h1) (insert h1 seen))"
    note u = Cons.prems(1)[unfolded faces_inv_def]
    from u have s: "seen = set (concat (map face_list F))"
      and d: "distinct (concat (map face_list F))"
      and sh: "\<forall>f\<in>set F. valid_he S (fst f)
            \<and> f = (fst f, nextInFace S (fst f), nextInFace S (nextInFace S (fst f)))"
      and cl: "\<forall>h\<in>seen. valid_he S h \<and> cycle S h \<subseteq> seen" by blast+
    have se: "?seen = seen \<union> cycle S h1" by (auto simp: cycle_def)
    have disj: "cycle S h1 \<inter> seen = {}"
    proof (rule ccontr)
      assume "cycle S h1 \<inter> seen \<noteq> {}"
      then obtain g where g: "g \<in> cycle S h1" "g \<in> seen" by auto
      from cl g(2) have "cycle S g \<subseteq> seen" by simp
      with cycle_self_mem[OF assms(1) v1 g(1)] False show False by auto
    qed
    have inv': "faces_inv S ?seen (F @ [?f])"
      unfolding faces_inv_def
    proof (intro conjI)
      show "?seen = set (concat (map face_list (F @ [?f])))"
        unfolding se using s cycle_list[of h1 S] by auto
      show "distinct (concat (map face_list (F @ [?f])))"
        using d cycle_distinct[OF assms(1) v1] disj s cycle_list[of h1 S] by auto
      show "\<forall>f\<in>set (F @ [?f]). valid_he S (fst f)
            \<and> f = (fst f, nextInFace S (fst f), nextInFace S (nextInFace S (fst f)))"
        using sh v1 by auto
      show "\<forall>h\<in>?seen. valid_he S h \<and> cycle S h \<subseteq> ?seen"
        unfolding se using cl cycle_valid[OF assms(1) v1] cycle_eq[OF assms(1) v1] by auto
    qed
    from Cons.IH[OF inv' vs] obtain seen' where
      "faces_inv S seen' (faces_loop S ?seen (F @ [?f]) hs)" "?seen \<union> set hs \<subseteq> seen'" by blast
    with False show ?thesis by (auto simp: Let_def)
  qed
qed

lemma faces_partition:
  assumes "wf_surface S"
  shows "distinct (concat (map face_list (faces S)))"
    and "set (concat (map face_list (faces S))) = set (half_edges S)"
    and "\<forall>f\<in>set (faces S). valid_he S (fst f)
            \<and> f = (fst f, nextInFace S (fst f), nextInFace S (nextInFace S (fst f)))"
proof -
  have "faces_inv S {} []" by (simp add: faces_inv_def)
  from faces_loop_inv[OF assms this, of "half_edges S"]
  obtain seen' where i: "faces_inv S seen' (faces S)" and sub: "set (half_edges S) \<subseteq> seen'"
    by (auto simp: faces_def set_half_edges)
  note u = i[unfolded faces_inv_def]
  from u show "distinct (concat (map face_list (faces S)))" by blast
  from u show "\<forall>f\<in>set (faces S). valid_he S (fst f)
            \<and> f = (fst f, nextInFace S (fst f), nextInFace S (nextInFace S (fst f)))" by blast
  from u have "seen' = set (concat (map face_list (faces S)))" and "\<forall>h\<in>seen'. valid_he S h"
    by blast+
  with sub show "set (concat (map face_list (faces S))) = set (half_edges S)"
    by (auto simp: set_half_edges)
qed

lemma half_edge_sum:
  "sum_list (map (\<lambda>h. he_sign h * M ! edge_index h ! k) (half_edges S)) = 0"
proof -
  have "sum_list (map (\<lambda>h. he_sign h * M ! edge_index h ! k)
          (concat (map (\<lambda>e. [positive e, negative e]) es))) = 0" for es
    by (induction es)
       (simp_all add: he_sign_positive he_sign_negative edge_index_positive edge_index_negative)
  then show ?thesis by (simp add: half_edges_def)
qed

lemma face_sum:
  assumes "\<forall>f\<in>set F. f = (fst f, nextInFace S (fst f), nextInFace S (nextInFace S (fst f)))"
  shows "sum_list (map (\<lambda>h. he_sign h * M ! edge_index h ! k) (concat (map face_list F)))
           = sum_list (map (\<lambda>f. relval S M k (fst f)) F)"
  using assms
proof (induction F)
  case Nil
  then show ?case by simp
next
  case (Cons f F)
  from Cons.prems have f: "f = (fst f, nextInFace S (fst f), nextInFace S (nextInFace S (fst f)))"
    and r: "\<forall>f\<in>set F. f = (fst f, nextInFace S (fst f), nextInFace S (nextInFace S (fst f)))"
    by auto
  have "sum_list (map (\<lambda>h. he_sign h * M ! edge_index h ! k) (face_list f)) = relval S M k (fst f)"
    by (subst f) (simp add: face_list_def relval_def)
  with Cons.IH[OF r] show ?case by simp
qed

lemma distinct_firsts:
  assumes "distinct (concat (map face_list F))"
  shows "distinct (map fst F)"
  using assms
proof (induction F)
  case Nil
  then show ?case by simp
next
  case (Cons f F)
  obtain a b c where f: "f = (a, b, c)" by (cases f) auto
  have "fst g \<in> set (concat (map face_list F))" if "g \<in> set F" for g
  proof -
    obtain a' b' c' where "g = (a', b', c')" by (cases g) auto
    with that show ?thesis by (force simp: face_list_def)
  qed
  with Cons f show ?case by (auto simp: face_list_def)
qed

lemma faces_relval_sum:
  assumes "wf_surface S"
  shows "sum_list (map (\<lambda>f. relval S M k (fst f)) (faces S)) = 0"
proof -
  note p = faces_partition[OF assms]
  let ?g = "\<lambda>h. he_sign h * M ! edge_index h ! k"
  have "sum_list (map (\<lambda>f. relval S M k (fst f)) (faces S))
      = sum_list (map ?g (concat (map face_list (faces S))))"
    using face_sum[of "faces S" S M k] p(3) by simp
  also have "\<dots> = sum ?g (set (concat (map face_list (faces S))))"
    by (rule sum_list_distinct_conv_sum_set[OF p(1)])
  also have "\<dots> = sum ?g (set (half_edges S))" by (simp only: p(2))
  also have "\<dots> = sum_list (map ?g (half_edges S))"
    by (rule sum_list_distinct_conv_sum_set[OF distinct_half_edges, symmetric])
  also have "\<dots> = 0" by (rule half_edge_sum)
  finally show ?thesis .
qed

lemma root_relation:
  assumes wf: "wf_surface S"
    and keys: "set (map fst (faces S)) = insert r K"
    and others: "\<forall>a\<in>K. rel_holds S M a"
  shows "\<forall>f\<in>set (faces S). rel_holds S M (fst f)"
proof -
  let ?A = "set (map fst (faces S))"
  have d: "distinct (map fst (faces S))"
    by (rule distinct_firsts[OF faces_partition(1)[OF wf]])
  have "relval S M k r = 0" if k: "k < nedges S" for k
  proof -
    have "sum_list (map (\<lambda>f. relval S M k (fst f)) (faces S))
        = sum_list (map (relval S M k) (map fst (faces S)))" by (simp add: comp_def)
    also have "\<dots> = sum (relval S M k) ?A" by (rule sum_list_distinct_conv_sum_set[OF d])
    also have "\<dots> = relval S M k r + sum (relval S M k) (?A - {r})"
    proof (rule sum.remove)
      show "finite ?A" by simp
      show "r \<in> ?A" unfolding keys by simp
    qed
    also have "sum (relval S M k) (?A - {r}) = 0"
    proof (rule sum.neutral, intro ballI)
      fix a assume "a \<in> ?A - {r}"
      with keys have "a \<in> K" by auto
      with others k show "relval S M k a = 0" by (simp add: rel_holds_def)
    qed
    finally show ?thesis using faces_relval_sum[OF wf, of M k] by simp
  qed
  then have "rel_holds S M r" by (simp add: rel_holds_def)
  with others keys show ?thesis by auto
qed

lemma dims_identity: "dims n (identity_matrix n :: int list list)"
  by (auto simp: dims_def identity_matrix_def)

lemma spanning_tree_inv:
  assumes wf: "wf_surface S" and st: "spanning_tree S = Some (Inr (t, M))"
  obtains r edges where "tree_inv S r (t, [], edges)"
    and "foldl_err (st_gauss_step S) (identity_matrix (nedges S)) (rev edges) = Inr M"
proof -
  let ?r = "half_edge_to_face S (positive 0)"
  from st have n: "nedges S \<noteq> 0" by (auto simp: spanning_tree_def split: if_splits)
  from st n obtain t' edges where l: "st_loop S ([(?r, None)], [?r], []) = Some (t', edges)"
    and c: "(case foldl_err (st_gauss_step S) (identity_matrix (nedges S)) (rev edges) of
              Inl e \<Rightarrow> Inl e | Inr proj \<Rightarrow> Inr (t', proj)) = Inr (t, M)"
    by (auto simp: spanning_tree_def Let_def split: option.splits)
  from c have t: "t' = t"
    and g: "foldl_err (st_gauss_step S) (identity_matrix (nedges S)) (rev edges) = Inr M"
    by (auto split: sum.splits)
  have v0: "valid_he S (positive 0)" using n by (simp add: valid_he_def positive_def)
  have "tree_inv S ?r ([(?r, None)], [?r], [])"
    using face_valid[OF wf v0] face_idem[OF wf v0] by (simp add: tree_inv_def)
  from st_loop_inv[OF l wf this] t have "tree_inv S ?r (t, [], edges)" by simp
  from this g show ?thesis by (rule that)
qed

lemma spanning_tree_relations:
  assumes wf: "wf_surface S" and st: "spanning_tree S = Some (Inr (t, M))"
    and keys: "set (dict_keys t) = set (map fst (faces S))"
  shows "\<forall>f\<in>set (faces S). rel_holds S M (fst f)" and "dims (nedges S) M"
proof -
  from spanning_tree_inv[OF wf st] obtain r edges where inv: "tree_inv S r (t, [], edges)"
    and g: "foldl_err (st_gauss_step S) (identity_matrix (nedges S)) (rev edges) = Inr M"
    by blast
  note u = inv[unfolded tree_inv_def prod.case]
  from u have kt: "map fst t = r # map (half_edge_to_face S) edges"
    and ve: "\<forall>e\<in>set edges. valid_he S e" by blast+
  show "dims (nedges S) M" by (rule gauss_fold_dims[OF g dims_identity])
  have ve': "\<forall>e\<in>set (rev edges). valid_he S e" using ve by simp
  have "\<forall>b\<in>{} \<union> set (rev edges). rel_holds S M b"
    by (rule gauss_fold_rel[OF wf g dims_identity ve' tree_sorted[OF wf inv]]) simp_all
  then have e: "\<forall>e\<in>set edges. rel_holds S M e" by simp
  have o: "\<forall>a\<in>half_edge_to_face S ` set edges. rel_holds S M a"
  proof
    fix a assume "a \<in> half_edge_to_face S ` set edges"
    then obtain x where x: "x \<in> set edges" and a: "a = half_edge_to_face S x" by blast
    from rel_holds_cycle[OF wf _ _ face_in_cycle[of S x], of M] x ve e a
    show "rel_holds S M a" by simp
  qed
  have k: "set (map fst (faces S)) = insert r (half_edge_to_face S ` set edges)"
    using keys kt by (simp add: dict_keys_def)
  show "\<forall>f\<in>set (faces S). rel_holds S M (fst f)" by (rule root_relation[OF wf k o])
qed

lemma dot_update:
  fixes u :: "int list"
  shows "i < length v \<Longrightarrow> length u = length v \<Longrightarrow> dot u (v[i := x]) = dot u v + u ! i * (x - v ! i)"
proof (induction u arbitrary: v i)
  case Nil
  then show ?case by simp
next
  case (Cons a u)
  then obtain b w where v: "v = b # w" by (cases v) auto
  show ?case
  proof (cases i)
    case 0
    then show ?thesis by (simp add: v dot_def algebra_simps)
  next
    case (Suc j)
    with Cons.prems v have "j < length w" "length u = length w" by auto
    from Cons.IH[OF this, unfolded dot_def] show ?thesis by (simp add: v Suc dot_def)
  qed
qed

lemma dot_zero_vec: "dot (u :: int list) (zero_vec n) = 0"
  unfolding dot_def zero_vec_def
proof (induction u arbitrary: n)
  case Nil
  then show ?case by simp
next
  case (Cons a u)
  then show ?case by (cases n) simp_all
qed

lemma dot_boundary:
  fixes u :: "int list"
  assumes "length u = n" and "i1 < n" and "i2 < n" and "i3 < n"
    and "i2 \<noteq> i1" and "i3 \<noteq> i1" and "i3 \<noteq> i2"
  shows "dot u ((zero_vec n)[i1 := 1, i2 := x, i3 := y]) = u ! i1 + u ! i2 * x + u ! i3 * y"
proof -
  have z: "length (zero_vec n :: int list) = n" by (simp add: zero_vec_def)
  have "dot u ((zero_vec n)[i1 := 1]) = u ! i1"
    using assms by (simp add: dot_update z dot_zero_vec) (simp add: zero_vec_def)
  moreover have "dot u ((zero_vec n)[i1 := 1, i2 := x])
      = dot u ((zero_vec n)[i1 := 1]) + u ! i2 * x"
    using assms by (simp add: dot_update z) (simp add: zero_vec_def)
  moreover have "dot u ((zero_vec n)[i1 := 1, i2 := x, i3 := y])
      = dot u ((zero_vec n)[i1 := 1, i2 := x]) + u ! i3 * y"
    using assms by (simp add: dot_update z) (simp add: zero_vec_def)
  ultimately show ?thesis by simp
qed

lemma column_boundary:
  assumes wf: "wf_surface S" and v: "valid_he S a" and d: "dims (nedges S) M"
    and b: "boundary S (a, nextInFace S a, nextInFace S (nextInFace S a)) = Inr b"
  shows "dot (column M c) b = he_sign a * relval S M c a"
proof -
  let ?n = "nedges S"
  let ?f2 = "nextInFace S a" let ?f3 = "nextInFace S (nextInFace S a)"
  let ?i1 = "edge_index a" let ?i2 = "edge_index ?f2" let ?i3 = "edge_index ?f3"
  from b have lt: "?i1 < ?n" "?i2 < ?n" "?i3 < ?n"
    and bv: "b = (zero_vec ?n)[?i1 := 1, ?i2 := he_sign a * he_sign ?f2,
                                ?i3 := he_sign a * he_sign ?f3]"
    by (auto simp: boundary_def Let_def split: if_splits)
  have l: "length (column M c) = ?n" using d by (simp add: column_def dims_def)
  have nth: "column M c ! i = M ! i ! c" if "i < ?n" for i
    using that d by (simp add: column_def dims_def)
  have "dot (column M c) b = M ! ?i1 ! c + M ! ?i2 ! c * (he_sign a * he_sign ?f2)
      + M ! ?i3 ! c * (he_sign a * he_sign ?f3)"
    unfolding bv
    using dot_boundary[OF l lt wf_next(3)[OF wf v] wf_next2(2,3)[OF wf v]] nth lt by simp
  also have "\<dots> = he_sign a * relval S M c a"
    using he_sign_sq[of a] by (simp add: relval_def algebra_simps)
  finally show ?thesis .
qed

lemma boundaries_faces:
  assumes "boundaries S = Inr B" and "b \<in> set B"
  shows "\<exists>f\<in>set (faces S). boundary S f = Inr b"
proof -
  let ?P = "\<lambda>B. \<forall>b\<in>set B. \<exists>f\<in>set (faces S). boundary S f = Inr b"
  have "?P B"
  proof (rule foldl_err_inv[OF assms(1)[unfolded boundaries_def], of ?P])
    show "?P []" by simp
  next
    fix A x A'
    assume A: "?P A" and x: "x \<in> set (faces S)"
      and s: "(case boundary S x of Inl e \<Rightarrow> Inl e | Inr b \<Rightarrow> Inr (A @ [b])) = Inr A'"
    from s obtain b' where b': "boundary S x = Inr b'" and A': "A' = A @ [b']"
      by (auto split: sum.splits)
    show "?P A'" unfolding A' using A x b' by auto
  qed
  with assms(2) show ?thesis by blast
qed

lemma columns_annihilate_boundaries:
  assumes wf: "wf_surface S" and st: "spanning_tree S = Some (Inr (t, M))"
    and keys: "set (dict_keys t) = set (map fst (faces S))"
    and B: "boundaries S = Inr B" and b: "b \<in> set B" and c: "c < nedges S"
  shows "dot (column M c) b = 0"
proof -
  note r = spanning_tree_relations[OF wf st keys]
  from boundaries_faces[OF B b] obtain f where f: "f \<in> set (faces S)"
    and bf: "boundary S f = Inr b" by blast
  from faces_partition(3)[OF wf] f have v: "valid_he S (fst f)"
    and sh: "f = (fst f, nextInFace S (fst f), nextInFace S (nextInFace S (fst f)))" by blast+
  from bf sh have bf': "boundary S (fst f, nextInFace S (fst f), nextInFace S (nextInFace S (fst f))) = Inr b"
    by simp
  from r(1) f c have "relval S M c (fst f) = 0" by (simp add: rel_holds_def)
  with column_boundary[OF wf v r(2) bf', of c] show ?thesis by simp
qed

lemma spanning_set_char:
  assumes inv: "tree_inv S r (t, todo, edges)"
  shows "spanning_set_of S t = filter (\<lambda>e. e \<notin> edge_index ` set edges) [0..<nedges S]"
proof -
  note u = inv[unfolded tree_inv_def prod.case]
  from u have ms: "map snd t = None # map Some edges"
    and ve: "\<forall>e\<in>set edges. valid_he S e" by blast+
  have "snd ` set t = set (map snd t)" by simp
  also have "\<dots> = insert None (Some ` set edges)" unfolding ms by simp
  finally have sn: "snd ` set t = insert None (Some ` set edges)" .
  have "(positive e \<notin> set edges \<and> negative e \<notin> set edges) = (e \<notin> edge_index ` set edges)" for e
  proof
    assume a: "positive e \<notin> set edges \<and> negative e \<notin> set edges"
    show "e \<notin> edge_index ` set edges"
    proof
      assume "e \<in> edge_index ` set edges"
      then obtain x where x: "x \<in> set edges" and e: "e = edge_index x" by blast
      from ve x have "valid_he S x" by blast
      then show False
        using a x e by (cases rule: valid_cases) (auto simp: edge_index_positive edge_index_negative)
    qed
  next
    assume a: "e \<notin> edge_index ` set edges"
    have "positive e \<notin> set edges"
    proof
      assume "positive e \<in> set edges"
      then have "edge_index (positive e) \<in> edge_index ` set edges" by (rule imageI)
      with a show False by (simp add: edge_index_positive)
    qed
    moreover have "negative e \<notin> set edges"
    proof
      assume "negative e \<in> set edges"
      then have "edge_index (negative e) \<in> edge_index ` set edges" by (rule imageI)
      with a show False by (simp add: edge_index_negative)
    qed
    ultimately show "positive e \<notin> set edges \<and> negative e \<notin> set edges" by simp
  qed
  then show ?thesis unfolding spanning_set_of_def sn by (simp add: image_iff)
qed

lemma identity_nth:
  "i < n \<Longrightarrow> j < n \<Longrightarrow> (identity_matrix n :: int list list) ! i ! j = (if i = j then 1 else 0)"
  by (simp add: identity_matrix_def)

lemma projection_columns:
  assumes g: "foldl_err (st_gauss_step S) (identity_matrix (nedges S)) (rev edges) = Inr M"
    and c: "c < nedges S"
  shows "is_zero (column M c) \<longleftrightarrow> c \<in> edge_index ` set edges"
proof
  assume z: "is_zero (column M c)"
  show "c \<in> edge_index ` set edges"
  proof (rule ccontr)
    assume n: "c \<notin> edge_index ` set edges"
    then have "c \<notin> edge_index ` set (rev edges)" by simp
    from gauss_fold_rows[OF g dims_identity this] c have "M ! c ! c = 1"
      by (simp add: identity_nth)
    moreover have "length M = nedges S" using gauss_fold_dims[OF g dims_identity] by (simp add: dims_def)
    ultimately have "column M c ! c = 1" "c < length (column M c)" using c by (simp_all add: column_def)
    with z show False by (auto simp: is_zero_def list_all_length)
  qed
next
  assume "c \<in> edge_index ` set edges"
  then obtain e where e: "e \<in> set (rev edges)" and ce: "c = edge_index e" by auto
  have l: "length M = nedges S" using gauss_fold_dims[OF g dims_identity] by (simp add: dims_def)
  have "M ! j ! c = 0" if "j < nedges S" for j
    unfolding ce by (rule gauss_fold_tree_columns[OF g dims_identity e that])
  then show "is_zero (column M c)" by (simp add: is_zero_def list_all_length column_def l)
qed

lemma projection_rows:
  assumes inv: "tree_inv S r (t, todo, edges)"
    and g: "foldl_err (st_gauss_step S) (identity_matrix (nedges S)) (rev edges) = Inr M"
  shows "filter (\<lambda>r. \<not> is_zero r) (transpose_mat (nedges S) M) = map (column M) (spanning_set_of S t)"
proof -
  have "filter (\<lambda>r. \<not> is_zero r) (map (column M) [0..<nedges S])
      = map (column M) (filter (\<lambda>c. \<not> is_zero (column M c)) [0..<nedges S])"
    by (simp add: filter_map comp_def)
  also have "filter (\<lambda>c. \<not> is_zero (column M c)) [0..<nedges S]
      = filter (\<lambda>e. e \<notin> edge_index ` set edges) [0..<nedges S]"
    by (rule filter_cong[OF refl]) (simp add: projection_columns[OF g])
  finally show ?thesis by (simp add: transpose_mat_def spanning_set_char[OF inv])
qed

lemma projection_independent:
  assumes inv: "tree_inv S r (t, todo, edges)"
    and g: "foldl_err (st_gauss_step S) (identity_matrix (nedges S)) (rev edges) = Inr M"
  shows "lin_indep (nedges S)
           (map (map of_int) (map (column M) (spanning_set_of S t)) :: rat list list)"
  unfolding lin_indep_def
proof (intro allI impI)
  let ?n = "nedges S" let ?ss = "spanning_set_of S t"
  let ?R = "map (map of_int) (map (column M) ?ss) :: rat list list"
  fix c :: "nat \<Rightarrow> rat" and j
  assume z: "\<forall>k<?n. (\<Sum>i<length ?R. c i * ?R ! i ! k) = 0" and j: "j < length ?R"
  have ss: "?ss = filter (\<lambda>e. e \<notin> edge_index ` set edges) [0..<?n]"
    by (rule spanning_set_char[OF inv])
  have d: "distinct ?ss" unfolding ss by simp
  have mem: "?ss ! i < ?n \<and> ?ss ! i \<notin> edge_index ` set edges" if "i < length ?ss" for i
  proof -
    from that have "?ss ! i \<in> set ?ss" by simp
    then show ?thesis unfolding ss by simp
  qed
  have l: "length M = ?n" using gauss_fold_dims[OF g dims_identity] by (simp add: dims_def)
  from j have j': "j < length ?ss" by simp
  have entry: "?R ! i ! (?ss ! j) = (if i = j then 1 else 0)" if i: "i < length ?ss" for i
  proof -
    from mem[OF j'] have "?ss ! j \<notin> edge_index ` set (rev edges)" by simp
    from gauss_fold_rows[OF g dims_identity this]
    have "M ! (?ss ! j) ! (?ss ! i) = (if ?ss ! j = ?ss ! i then 1 else 0)"
      using mem[OF j'] mem[OF i] by (simp add: identity_nth)
    also have "\<dots> = (if i = j then 1 else 0)"
      using nth_eq_iff_index_eq[OF d i j'] by auto
    finally have "M ! (?ss ! j) ! (?ss ! i) = (if i = j then 1 else 0)" .
    then show ?thesis using i mem[OF j'] l by (simp add: column_def)
  qed
  have "(\<Sum>i<length ?R. c i * ?R ! i ! (?ss ! j)) = (\<Sum>i<length ?R. if i = j then c i else 0)"
  proof (rule sum.cong[OF refl])
    fix i assume "i \<in> {..<length ?R}"
    then have "i < length ?ss" by simp
    from entry[OF this] show "c i * ?R ! i ! (?ss ! j) = (if i = j then c i else 0)"
      by (cases "i = j") simp_all
  qed
  also have "\<dots> = c j" using j by (simp add: sum.delta)
  finally show "c j = 0" using z mem[OF j'] by simp
qed

lemma projection_rank:
  assumes inv: "tree_inv S r (t, todo, edges)"
    and g: "foldl_err (st_gauss_step S) (identity_matrix (nedges S)) (rev edges) = Inr M"
  shows "rank_ZZ (map (column M) (spanning_set_of S t)) = length (spanning_set_of S t)"
proof -
  let ?R = "map (map of_int) (map (column M) (spanning_set_of S t)) :: rat list list"
  have l: "length M = nedges S" using gauss_fold_dims[OF g dims_identity] by (simp add: dims_def)
  have "\<forall>r\<in>set ?R. length r = nedges S" by (auto simp: column_def l)
  from indep_rank_full[OF this projection_independent[OF inv g]]
  show ?thesis by (simp add: rank_ZZ_def)
qed

lemma boundary_returns:
  assumes "wf_surface S" and "f \<in> set (faces S)"
  shows "\<exists>b. boundary S f = Inr b"
proof -
  from faces_partition(3)[OF assms(1)] assms(2) have v: "valid_he S (fst f)"
    and sh: "f = (fst f, nextInFace S (fst f), nextInFace S (nextInFace S (fst f)))" by blast+
  note e = edge_index_valid[OF v] edge_index_valid[OF wf_next(1)[OF assms(1) v]]
    edge_index_valid[OF wf_next2(1)[OF assms(1) v]]
  from e show ?thesis by (subst sh) (simp add: boundary_def Let_def not_le[symmetric])
qed

lemma collect_returns:
  assumes "\<forall>x\<in>set xs. \<exists>b. g x = Inr b"
  shows "\<exists>B. foldl_err (\<lambda>B f. case g f of Inl e \<Rightarrow> Inl e | Inr b \<Rightarrow> Inr (B @ [b])) B0 xs = Inr B
           \<and> length B = length B0 + length xs"
  using assms
proof (induction xs arbitrary: B0)
  case Nil
  then show ?case by simp
next
  case (Cons x xs)
  from Cons.prems obtain b where b: "g x = Inr b" and r: "\<forall>x\<in>set xs. \<exists>b. g x = Inr b" by auto
  from Cons.IH[OF r, of "B0 @ [b]"] show ?case by (simp add: b)
qed

lemma boundaries_returns:
  assumes "wf_surface S"
  shows "\<exists>B. boundaries S = Inr B \<and> length B = length (faces S)"
  using collect_returns[of "faces S" "boundary S" "[]"] boundary_returns[OF assms]
  by (simp add: boundaries_def)

text \<open>
  Claim C6. On a triangulation for which the constructor returns, \<^verbatim>\<open>boundaries\<close> returns
  one vector for each face, the matrix \<^verbatim>\<open>proj\<close> sends each of them to the zero vector of
  length \<open>d\<close>, and \<^verbatim>\<open>proj\<close> has \<open>d\<close> rows and rank \<open>d\<close>, the size of the spanning set.
  The relation of every face but the root's holds by the elimination along the tree;
  the root's then holds because the relations of all faces sum to zero, each edge
  appearing once with each sign.
\<close>

theorem projection_annihilates_boundaries:
  assumes wf: "wf_surface S" and c: "GL2ROrbitClosure S = Some (Inr orb)"
  shows "\<exists>B. boundaries S = Inr B \<and> length B = length (faces S)
           \<and> (\<forall>b\<in>set B. mat_vec (O_proj orb) b = zero_vec (O_d orb))
           \<and> length (O_proj orb) = O_d orb
           \<and> rank_ZZ (O_proj orb) = O_d orb"
proof -
  from c obtain t ss P where p: "projection S = Some (Inr (t, ss, P))"
    and op: "O_proj orb = P" and od: "O_d orb = length ss"
    by (auto simp: GL2ROrbitClosure_def Let_def split: option.splits sum.splits if_splits)
  from p obtain M where st: "spanning_tree S = Some (Inr (t, M))"
    and keys: "set (dict_keys t) = set (map fst (faces S))"
    and ss: "ss = spanning_set_of S t"
    and P: "P = filter (\<lambda>r. \<not> is_zero r) (transpose_mat (nedges S) M)"
    by (auto simp: projection_def Let_def split: option.splits sum.splits if_splits)
  from spanning_tree_inv[OF wf st] obtain r edges where inv: "tree_inv S r (t, [], edges)"
    and g: "foldl_err (st_gauss_step S) (identity_matrix (nedges S)) (rev edges) = Inr M"
    by blast
  have P': "P = map (column M) ss" unfolding P ss by (rule projection_rows[OF inv g])
  have lt: "\<forall>e\<in>set ss. e < nedges S" unfolding ss spanning_set_of_def by simp
  from boundaries_returns[OF wf] obtain B where B: "boundaries S = Inr B"
    and lB: "length B = length (faces S)" by blast
  have "mat_vec P b = zero_vec (length ss)" if b: "b \<in> set B" for b
  proof -
    have "dot (column M e) b = 0" if "e \<in> set ss" for e
      using columns_annihilate_boundaries[OF wf st keys B b] lt that by blast
    then have "map (\<lambda>e. dot (column M e) b) ss = map (\<lambda>e. 0) ss" by (intro map_cong) simp_all
    then show ?thesis by (simp add: mat_vec_def P' comp_def zero_vec_def map_replicate_const)
  qed
  moreover have "length P = length ss" by (simp add: P')
  moreover have "rank_ZZ P = length ss" unfolding P' ss by (rule projection_rank[OF inv g])
  ultimately show ?thesis using B lB op od by auto
qed

lemma torus2_wf: "wf_surface torus2"
  by code_simp

theorem projection_annihilates_boundaries_witness:
  "wf_surface torus2 \<and> GL2ROrbitClosure torus2 = Some (Inr torus2_orbit)
   \<and> boundaries torus2
       = Inr [[1, 0, 0, 1, - 1, 0], [1, 0, 1, 0, - 1, 0], [0, 1, 1, 0, 0, - 1], [0, 1, 0, 1, 0, - 1]]
   \<and> mat_vec (O_proj torus2_orbit) [1, 0, 0, 1, - 1, 0] = zero_vec (O_d torus2_orbit)
   \<and> mat_vec (O_proj torus2_orbit) [0, 1, 1, 0, 0, - 1] = zero_vec (O_d torus2_orbit)
   \<and> rank_ZZ (O_proj torus2_orbit) = O_d torus2_orbit
   \<and> O_d torus2_orbit = 3"
proof -
  from projection_annihilates_boundaries[OF torus2_wf torus2_constructed]
  obtain B where B: "boundaries torus2 = Inr B"
    and z: "\<forall>b\<in>set B. mat_vec (O_proj torus2_orbit) b = zero_vec (O_d torus2_orbit)"
    and r: "rank_ZZ (O_proj torus2_orbit) = O_d torus2_orbit" by blast
  from B torus2_boundaries
  have "B = [[1, 0, 0, 1, - 1, 0], [1, 0, 1, 0, - 1, 0], [0, 1, 1, 0, 0, - 1], [0, 1, 0, 1, 0, - 1]]"
    by simp
  with z have "mat_vec (O_proj torus2_orbit) [1, 0, 0, 1, - 1, 0] = zero_vec (O_d torus2_orbit)"
    "mat_vec (O_proj torus2_orbit) [0, 1, 1, 0, 0, - 1] = zero_vec (O_d torus2_orbit)" by simp_all
  moreover have "O_d torus2_orbit = 3" by (simp add: torus2_orbit_def)
  ultimately show ?thesis using torus2_wf torus2_constructed torus2_boundaries r by blast
qed

subsection \<open>The effort limit of \<^verbatim>\<open>decomposition\<close>\<close>


subsection \<open>The breadth-first enumeration\<close>

text \<open>
  Claim C2, at the bound \<open>0\<close> and at every larger one. The claim is that the breadth-first
  enumeration yields a decomposition for each direction up to the bound and does not
  fail when pulled. The first pull evaluates \<^verbatim>\<open>flatsurf.Bound(0, 0)\<close>, and the module binds
  no name \<^verbatim>\<open>flatsurf\<close>: the generator yields nothing and ends with \<^verbatim>\<open>NameError\<close>.
\<close>

theorem decompositions_breadth_first_raises:
  "decompositions_breadth_first api is_between (int n) limit sector visited
     = ([], Some (NameError ''flatsurf''))"
proof -
  have "[0..int n] = 0 # [1..int n]"
    by (simp add: upto_rec1)
  then show ?thesis
    by (simp add: decompositions_breadth_first_def lookup_global_def module_globals_def)
qed

end
